theory Spec2Isabelle
  imports Complex_Main "HOL-Library.AList" "HOL-Library.Multiset"
begin

section \<open>Numbers\<close>

text \<open>
  The engine computes with JavaScript numbers. A finite number is modelled as an exact
  real (no rounding, no overflow); the two special values the engine meets are kept:
  \<open>Infinity\<close>, the initial distance of every node but the source, and \<open>NaN\<close>, which is
  what arithmetic on \<open>undefined\<close> (a \<open>Map.get\<close> of an absent key) yields. Weights,
  traffic factors and coordinates are finite, so \<open>-Infinity\<close> never arises.
\<close>

datatype number = Num real | Infinity | NaN

text \<open>\<open>a + b\<close> on numbers.\<close>

fun num_add :: "number \<Rightarrow> number \<Rightarrow> number" where
  "num_add (Num a) (Num b) = Num (a + b)"
| "num_add NaN _ = NaN"
| "num_add _ NaN = NaN"
| "num_add _ _ = Infinity"

text \<open>\<open>a < b\<close> and \<open>a <= b\<close> on numbers: every comparison with \<open>NaN\<close> is false.\<close>

fun num_less :: "number \<Rightarrow> number \<Rightarrow> bool" where
  "num_less (Num a) (Num b) = (a < b)"
| "num_less (Num a) Infinity = True"
| "num_less _ _ = False"

fun num_le :: "number \<Rightarrow> number \<Rightarrow> bool" where
  "num_le (Num a) (Num b) = (a \<le> b)"
| "num_le (Num a) Infinity = True"
| "num_le Infinity Infinity = True"
| "num_le _ _ = False"

section \<open>Graph data structures\<close>

datatype node_type = Normal | Hospital | Fire_station | Police

record Node =
  id_node :: string
  x_node :: real
  y_node :: real
  label_node :: string
  type_node :: node_type

record Edge =
  from_edge :: string
  to_edge :: string
  weight :: real
  traffic :: real
  blocked :: bool

text \<open>
  A JavaScript \<open>Map\<close> keeps its keys in insertion order, and \<open>forEach\<close> walks them in
  that order: a map is an association list. \<open>m.get(k)\<close> is \<open>map_of m k\<close> (\<open>None\<close> is
  \<open>undefined\<close>), and \<open>m.set(k, v)\<close> is \<open>AList.update k v m\<close>, which replaces the value
  in place when the key is present and appends the pair otherwise.
\<close>

type_synonym ('k, 'v) js_map = "('k \<times> 'v) list"

record Graph =
  nodes :: "(string, Node) js_map"
  edges :: "(string, Edge list) js_map"

text \<open>The keys of a \<open>Map\<close> are unique.\<close>

definition wf_graph :: "Graph \<Rightarrow> bool" where
  "wf_graph g = (distinct (map fst (nodes g)) \<and> distinct (map fst (edges g)))"

text \<open>
  \<open>m.get(k)!\<close> read as a number: \<open>undefined\<close> becomes \<open>NaN\<close> in a sum and makes every
  comparison false, exactly as \<open>NaN\<close> does.
\<close>

definition get_num :: "(string, number) js_map \<Rightarrow> string \<Rightarrow> number" where
  "get_num m k = (case map_of m k of None \<Rightarrow> NaN | Some v \<Rightarrow> v)"

text \<open>
  \<open>m.get(k) || Infinity\<close>: the right operand is taken when the left one is falsy, which
  for a number-or-undefined means \<open>undefined\<close>, \<open>NaN\<close> and \<open>0\<close>.
\<close>

definition or_Infinity :: "number option \<Rightarrow> number" where
  "or_Infinity v =
     (case v of
        None \<Rightarrow> Infinity
      | Some NaN \<Rightarrow> Infinity
      | Some (Num r) \<Rightarrow> (if r = 0 then Infinity else Num r)
      | Some Infinity \<Rightarrow> Infinity)"

text \<open>
  \<open>previous.get(k) || null\<close>: \<open>undefined\<close>, \<open>null\<close> and the empty string are falsy.
\<close>

definition or_null :: "string option option \<Rightarrow> string option" where
  "or_null v =
     (case v of
        None \<Rightarrow> None
      | Some None \<Rightarrow> None
      | Some (Some p) \<Rightarrow> (if p = [] then None else Some p))"

section \<open>Priority queue (binary min-heap over an array)\<close>

text \<open>An entry \<open>{ priority, value }\<close> is the pair \<open>(priority, value)\<close>.\<close>

type_synonym 'a entry = "number \<times> 'a"

text \<open>\<open>[h[i], h[j]] = [h[j], h[i]]\<close>\<close>

definition swap :: "'a list \<Rightarrow> nat \<Rightarrow> nat \<Rightarrow> 'a list" where
  "swap h i j = h[i := h ! j, j := h ! i]"

lemma length_swap [simp]: "length (swap h i j) = length h"
  by (simp add: swap_def)

text \<open>
  \<open>bubbleUp\<close> and \<open>bubbleDown\<close> are private and are called at an index inside the
  array only; every other index they read is a parent of such an index, or is guarded by
  \<open>< length\<close>.
\<close>

function bubbleUp :: "'a entry list \<Rightarrow> nat \<Rightarrow> 'a entry list" where
  "bubbleUp h index =
     (if index > 0 then
        (let parentIndex = (index - 1) div 2 in
         if num_le (fst (h ! parentIndex)) (fst (h ! index)) then h
         else bubbleUp (swap h parentIndex index) parentIndex)
      else h)"
  by pat_completeness auto
termination
  by (relation "measure (\<lambda>(h, index). index)") auto

declare bubbleUp.simps [simp del]

definition smallest_of :: "'a entry list \<Rightarrow> nat \<Rightarrow> nat" where
  "smallest_of h index =
     (let leftChild = 2 * index + 1;
          rightChild = 2 * index + 2;
          smallest = index;
          smallest = (if leftChild < length h \<and> num_less (fst (h ! leftChild)) (fst (h ! smallest))
                      then leftChild else smallest);
          smallest = (if rightChild < length h \<and> num_less (fst (h ! rightChild)) (fst (h ! smallest))
                      then rightChild else smallest)
      in smallest)"

lemma smallest_of_cases:
  "smallest_of h i = i \<or> (i < smallest_of h i \<and> smallest_of h i < length h)"
  by (auto simp: smallest_of_def Let_def)

function bubbleDown :: "'a entry list \<Rightarrow> nat \<Rightarrow> 'a entry list" where
  "bubbleDown h index =
     (let smallest = smallest_of h index in
      if smallest = index then h
      else bubbleDown (swap h smallest index) smallest)"
  by pat_completeness auto
termination
proof (relation "measure (\<lambda>(h, index). length h - index)")
  show "wf (measure (\<lambda>(h :: 'a entry list, index). length h - index))" by simp
next
  fix h :: "'a entry list" and index x
  assume "x = smallest_of h index" "x \<noteq> index"
  with smallest_of_cases [of h index]
  show "((swap h x index, x), (h, index)) \<in> measure (\<lambda>(h, index). length h - index)"
    by auto
qed

declare bubbleDown.simps [simp del]

definition enqueue :: "'a \<Rightarrow> number \<Rightarrow> 'a entry list \<Rightarrow> 'a entry list" where
  "enqueue v p h = (let h1 = h @ [(p, v)] in bubbleUp h1 (length h1 - 1))"

text \<open>\<open>dequeue\<close> returns the value (\<open>None\<close> is \<open>undefined\<close>) and the heap it leaves.\<close>

definition dequeue :: "'a entry list \<Rightarrow> 'a option \<times> 'a entry list" where
  "dequeue h =
     (if length h = 0 then (None, h)
      else
        (let min = h ! 0;
             last = last h;
             h1 = butlast h;
             h2 = (if length h1 > 0 then bubbleDown (h1[0 := last]) 0 else h1)
         in (Some (snd min), h2)))"

definition isEmpty :: "'a entry list \<Rightarrow> bool" where
  "isEmpty h = (length h = 0)"


subsection \<open>The queue keeps its entries\<close>

lemma mset_swap_heap:
  "i < length h \<Longrightarrow> j < length h \<Longrightarrow> mset (swap h i j) = mset h"
  unfolding swap_def by (simp add: mset_swap)

lemma mset_bubbleUp: "index < length h \<Longrightarrow> mset (bubbleUp h index) = mset h"
proof (induction h index rule: bubbleUp.induct)
  case (1 h index)
  show ?case
  proof (cases "index > 0 \<and> \<not> num_le (fst (h ! ((index - 1) div 2))) (fst (h ! index))")
    case True
    have lt: "(index - 1) div 2 < length h" using "1.prems" by simp
    have "mset (bubbleUp (swap h ((index - 1) div 2) index) ((index - 1) div 2))
          = mset (swap h ((index - 1) div 2) index)"
      using True lt by (intro "1.IH") auto
    also have "\<dots> = mset h" using lt "1.prems" by (rule mset_swap_heap)
    finally show ?thesis using True by (subst bubbleUp.simps) (simp add: Let_def)
  next
    case False
    then show ?thesis by (subst bubbleUp.simps) (auto simp: Let_def)
  qed
qed

lemma mset_bubbleDown: "index < length h \<Longrightarrow> mset (bubbleDown h index) = mset h"
proof (induction h index rule: bubbleDown.induct)
  case (1 h index)
  show ?case
  proof (cases "smallest_of h index = index")
    case True
    then show ?thesis by (subst bubbleDown.simps) simp
  next
    case False
    with smallest_of_cases [of h index]
    have lt: "smallest_of h index < length h" by auto
    have "mset (bubbleDown (swap h (smallest_of h index) index) (smallest_of h index))
          = mset (swap h (smallest_of h index) index)"
      using False lt by (intro "1.IH") auto
    also have "\<dots> = mset h" using lt "1.prems" by (rule mset_swap_heap)
    finally show ?thesis using False by (subst bubbleDown.simps) (simp add: Let_def)
  qed
qed

lemma mset_enqueue: "mset (enqueue v p h) = add_mset (p, v) (mset h)"
  by (simp add: enqueue_def Let_def mset_bubbleUp)

lemma dequeue_Nil: "dequeue [] = (None, [])"
  by (simp add: dequeue_def)

lemma dequeue_nonempty:
  assumes "h \<noteq> []"
  shows "\<exists>h'. dequeue h = (Some (snd (h ! 0)), h') \<and> mset h = add_mset (h ! 0) (mset h')"
proof (cases "butlast h = []")
  case True
  then have "h = [last h]" using assms by (metis append_butlast_last_id append_Nil)
  then obtain e where h: "h = [e]" by metis
  show ?thesis by (simp add: h dequeue_def)
next
  case False
  then obtain e es where bl: "butlast h = e # es" by (cases "butlast h") auto
  have h: "h = (e # es) @ [last h]" using assms bl by (metis append_butlast_last_id)
  have h0: "h ! 0 = e" by (subst h) simp
  have "mset (bubbleDown ((butlast h)[0 := last h]) 0) = mset ((butlast h)[0 := last h])"
    by (intro mset_bubbleDown) (simp add: bl)
  also have "\<dots> = add_mset (last h) (mset es)" by (simp add: bl)
  finally have m: "mset (bubbleDown ((butlast h)[0 := last h]) 0) = add_mset (last h) (mset es)" .
  have "mset h = add_mset e (add_mset (last h) (mset es))" by (subst h) simp
  with m h0 False assms show ?thesis by (simp add: dequeue_def Let_def)
qed

lemma dequeue_cases:
  assumes "dequeue h = (c, h')" "h \<noteq> []"
  shows "c = Some (snd (h ! 0)) \<and> mset h = add_mset (h ! 0) (mset h')"
  using dequeue_nonempty [OF assms(2)] assms(1) by auto

lemma dequeue_length: "dequeue h = (c, h') \<Longrightarrow> h \<noteq> [] \<Longrightarrow> length h = Suc (length h')"
  by (drule (1) dequeue_cases) (metis size_add_mset size_mset)

lemma dequeue_set: "dequeue h = (c, h') \<Longrightarrow> h \<noteq> [] \<Longrightarrow> set h = insert (h ! 0) (set h')"
  by (drule (1) dequeue_cases) (metis set_mset_add_mset_insert set_mset_mset)

lemma set_enqueue: "set (enqueue v p h) = insert (p, v) (set h)"
  by (metis mset_enqueue set_mset_add_mset_insert set_mset_mset)


section \<open>Results and path reconstruction\<close>

record path_result =
  path :: "string list"
  distance :: number

record search_result = path_result +
  visited :: "string list"

record bellmanFord_result = path_result +
  hasNegativeCycle :: bool

text \<open>
  The loop \<open>while (current !== null) { path.unshift(current); current =
  previous.get(current) || null; }\<close>. It runs for ever when the predecessor links
  form a cycle; \<open>None\<close> is the call that never returns. (The array \<open>path\<close> is
  the argument \<open>pth\<close>.)
\<close>

partial_function (option) reconstruct ::
  "(string, string option) js_map \<Rightarrow> string option \<Rightarrow> string list \<Rightarrow> string list option"
where
  "reconstruct previous current pth =
     (case current of
        None \<Rightarrow> Some pth
      | Some c \<Rightarrow> reconstruct previous (or_null (map_of previous c)) (c # pth))"

declare reconstruct.simps [code]

text \<open>\<open>path[0] === startId ? path : []\<close>; \<open>path[0]\<close> of an empty array is \<open>undefined\<close>.\<close>

definition path_from :: "string \<Rightarrow> string list \<Rightarrow> string list" where
  "path_from startId pth =
     (case pth of [] \<Rightarrow> [] | p # _ \<Rightarrow> (if p = startId then pth else []))"

section \<open>Dijkstra's algorithm\<close>

text \<open>
  The variables of one call. The graph is part of the state, so that what a call does to
  it can be stated.
\<close>

record dijkstra_state =
  graph_d :: Graph
  distances_d :: "(string, number) js_map"
  previous_d :: "(string, string option) js_map"
  visited_d :: "string list"
  pq_d :: "string entry list"

text \<open>\<open>graph.nodes.forEach((_, id) => { distances.set(id, ...); previous.set(id, null); })\<close>\<close>

definition init_distances :: "Graph \<Rightarrow> string \<Rightarrow> (string, number) js_map" where
  "init_distances graph startId =
     fold (\<lambda>(id, _) distances.
             AList.update id (if id = startId then Num 0 else Infinity) distances)
          (nodes graph) []"

definition init_previous :: "Graph \<Rightarrow> (string, string option) js_map" where
  "init_previous graph =
     fold (\<lambda>(id, _) previous. AList.update id None previous) (nodes graph) []"

text \<open>
  Lines 107 to 114: a blocked edge is skipped unless the call is an emergency one
  (\<open>None\<close>); otherwise the edge has an effective weight.
\<close>

definition edge_cost_d :: "bool \<Rightarrow> Edge \<Rightarrow> real option" where
  "edge_cost_d isEmergency edge =
     (if blocked edge \<and> \<not> isEmergency then None
      else
        (let effectiveWeight = weight edge;
             effectiveWeight =
               (if \<not> isEmergency then effectiveWeight * (1 + traffic edge * 2)
                else effectiveWeight)
         in Some effectiveWeight))"

text \<open>The body of \<open>for (const edge of edges)\<close>.\<close>

definition relax_d :: "bool \<Rightarrow> string \<Rightarrow> Edge \<Rightarrow> dijkstra_state \<Rightarrow> dijkstra_state" where
  "relax_d isEmergency current edge st =
     (case edge_cost_d isEmergency edge of
        None \<Rightarrow> st
      | Some effectiveWeight \<Rightarrow>
          (let neighbor = to_edge edge;
               distance = num_add (get_num (distances_d st) current) (Num effectiveWeight)
           in if num_less distance (get_num (distances_d st) neighbor)
              then st\<lparr>distances_d := AList.update neighbor distance (distances_d st),
                      previous_d := AList.update neighbor (Some current) (previous_d st),
                      pq_d := enqueue neighbor distance (pq_d st)\<rparr>
              else st))"

text \<open>\<open>graph.edges.get(current) || []\<close>: an array, even an empty one, is truthy.\<close>

definition edges_of :: "Graph \<Rightarrow> string \<Rightarrow> Edge list" where
  "edges_of graph current =
     (case map_of (edges graph) current of None \<Rightarrow> [] | Some es \<Rightarrow> es)"

subsection \<open>What one relaxation changes\<close>

lemma get_num_less_key: "num_less d (get_num m k) \<Longrightarrow> k \<in> fst ` set m"
proof (cases "map_of m k")
  case None
  assume "num_less d (get_num m k)"
  with None show ?thesis by (simp add: get_num_def)
next
  case (Some v)
  then show ?thesis by (auto dest: map_of_SomeD intro: rev_image_eqI)
qed

lemma update_keys_present:
  "k \<in> fst ` set m \<Longrightarrow> fst ` set (AList.update k v m) = fst ` set m"
  using update_keys [of k v m] by (metis list.set_map)

lemma relax_d_graph [simp]: "graph_d (relax_d em cur e st) = graph_d st"
  by (simp add: relax_d_def Let_def split: option.splits)

lemma relax_d_visited [simp]: "visited_d (relax_d em cur e st) = visited_d st"
  by (simp add: relax_d_def Let_def split: option.splits)

lemma relax_d_keys [simp]:
  "fst ` set (distances_d (relax_d em cur e st)) = fst ` set (distances_d st)"
  by (simp add: relax_d_def Let_def update_keys_present get_num_less_key split: option.splits)

lemma relax_d_queue:
  "snd ` set (pq_d (relax_d em cur e st))
     \<subseteq> snd ` set (pq_d st) \<union> fst ` set (distances_d st)"
  by (auto simp: relax_d_def Let_def set_enqueue split: option.splits
      dest: get_num_less_key)

lemma fold_relax_d_graph [simp]: "graph_d (fold (relax_d em cur) es st) = graph_d st"
  by (induction es arbitrary: st) simp_all

lemma fold_relax_d_visited [simp]: "visited_d (fold (relax_d em cur) es st) = visited_d st"
  by (induction es arbitrary: st) simp_all

lemma fold_relax_d_keys [simp]:
  "fst ` set (distances_d (fold (relax_d em cur) es st)) = fst ` set (distances_d st)"
  by (induction es arbitrary: st) simp_all

lemma fold_relax_d_queue:
  "snd ` set (pq_d (fold (relax_d em cur) es st))
     \<subseteq> snd ` set (pq_d st) \<union> fst ` set (distances_d st)"
proof (induction es arbitrary: st)
  case Nil
  show ?case by simp
next
  case (Cons e es)
  have "snd ` set (pq_d (fold (relax_d em cur) (e # es) st))
        \<subseteq> snd ` set (pq_d (relax_d em cur e st)) \<union> fst ` set (distances_d st)"
    using Cons.IH [of "relax_d em cur e st"] by simp
  with relax_d_queue [of em cur e st] show ?case by blast
qed

subsection \<open>The main loop\<close>

text \<open>
  What is left to settle: the ids that are queued or have a distance entry, less the
  visited ones. A pass of the loop that visits a node shrinks it; a pass that discards a
  stale entry shrinks the queue.
\<close>

definition unsettled_d :: "dijkstra_state \<Rightarrow> string set" where
  "unsettled_d st = (snd ` set (pq_d st) \<union> fst ` set (distances_d st)) - set (visited_d st)"

lemma unsettled_d_finite [simp]: "finite (unsettled_d st)"
  by (simp add: unsettled_d_def)

lemma dequeue_stale_d:
  assumes "\<not> isEmpty (pq_d st)" "(x, y) = dequeue (pq_d st)"
  shows "card (unsettled_d (st\<lparr>pq_d := y\<rparr>)) \<le> card (unsettled_d st)"
    and "length y < length (pq_d st)"
proof -
  have d: "dequeue (pq_d st) = (x, y)" using assms(2) by simp
  have ne: "pq_d st \<noteq> []" using assms(1) by (simp add: isEmpty_def)
  have "unsettled_d (st\<lparr>pq_d := y\<rparr>) \<subseteq> unsettled_d st"
    using dequeue_set [OF d ne] by (auto simp: unsettled_d_def)
  then show "card (unsettled_d (st\<lparr>pq_d := y\<rparr>)) \<le> card (unsettled_d st)"
    by (intro card_mono) simp_all
  show "length y < length (pq_d st)" using dequeue_length [OF d ne] by simp
qed

lemma dequeue_visit_d:
  assumes "\<not> isEmpty (pq_d st)" "(Some current, y) = dequeue (pq_d st)"
    and "current \<notin> set (visited_d st)"
  shows "card (unsettled_d (fold (relax_d em current) es
                 (st\<lparr>pq_d := y, visited_d := visited_d st @ [current]\<rparr>)))
         < card (unsettled_d st)"
proof -
  let ?st1 = "st\<lparr>pq_d := y, visited_d := visited_d st @ [current]\<rparr>"
  let ?st2 = "fold (relax_d em current) es ?st1"
  have d: "dequeue (pq_d st) = (Some current, y)" using assms(2) by simp
  have ne: "pq_d st \<noteq> []" using assms(1) by (simp add: isEmpty_def)
  from dequeue_cases [OF d ne] have c: "current = snd (pq_d st ! 0)" by simp
  have s: "set (pq_d st) = insert (pq_d st ! 0) (set y)" by (rule dequeue_set [OF d ne])
  have in_q: "current \<in> snd ` set (pq_d st)" using c s by auto
  have sub: "unsettled_d ?st2 \<subseteq> unsettled_d st - {current}"
    using fold_relax_d_queue [of em current es ?st1] s
    unfolding unsettled_d_def by auto
  have "unsettled_d st - {current} \<subset> unsettled_d st"
    using in_q assms(3) by (auto simp: unsettled_d_def)
  with sub have "unsettled_d ?st2 \<subset> unsettled_d st" by blast
  then show ?thesis by (intro psubset_card_mono) simp_all
qed

function dijkstra_loop :: "string \<Rightarrow> bool \<Rightarrow> dijkstra_state \<Rightarrow> dijkstra_state" where
  "dijkstra_loop endId isEmergency st =
     (if isEmpty (pq_d st) then st
      else
        (case dequeue (pq_d st) of
           (None, pq') \<Rightarrow> st\<lparr>pq_d := pq'\<rparr>
         | (Some current, pq') \<Rightarrow>
             (if current \<in> set (visited_d st)
              then dijkstra_loop endId isEmergency (st\<lparr>pq_d := pq'\<rparr>)
              else if current = endId
              then st\<lparr>pq_d := pq', visited_d := visited_d st @ [current]\<rparr>
              else dijkstra_loop endId isEmergency
                     (fold (relax_d isEmergency current) (edges_of (graph_d st) current)
                        (st\<lparr>pq_d := pq', visited_d := visited_d st @ [current]\<rparr>)))))"
  by pat_completeness auto
termination
proof (relation "inv_image (less_than <*lex*> less_than)
                   (\<lambda>(endId, isEmergency, st). (card (unsettled_d st), length (pq_d st)))",
       goal_cases)
  case 1
  show ?case by (intro wf_inv_image wf_lex_prod wf_less_than)
next
  case (2 endId isEmergency st x y x2)
  from dequeue_stale_d [OF 2(1,2)] show ?case by auto
next
  case (3 endId isEmergency st x y x2)
  from 3(2,3) have "(Some x2, y) = dequeue (pq_d st)" by simp
  from dequeue_visit_d [OF 3(1) this 3(4)] show ?case by auto
qed

declare dijkstra_loop.simps [simp del]

text \<open>
  A call: the final variables, then the reconstructed path. The result comes with the
  graph as the call leaves it.
\<close>

definition dijkstra_init :: "Graph \<Rightarrow> string \<Rightarrow> dijkstra_state" where
  "dijkstra_init graph startId =
     \<lparr>graph_d = graph,
      distances_d = init_distances graph startId,
      previous_d = init_previous graph,
      visited_d = [],
      pq_d = enqueue startId (Num 0) []\<rparr>"

definition dijkstra_call ::
  "Graph \<Rightarrow> string \<Rightarrow> string \<Rightarrow> bool \<Rightarrow> (search_result \<times> Graph) option" where
  "dijkstra_call graph startId endId isEmergency =
     (let st = dijkstra_loop endId isEmergency (dijkstra_init graph startId) in
      case reconstruct (previous_d st) (Some endId) [] of
        None \<Rightarrow> None
      | Some pth \<Rightarrow>
          Some (\<lparr>path = path_from startId pth,
                 distance = or_Infinity (map_of (distances_d st) endId),
                 visited = visited_d st\<rparr>,
                graph_d st))"

definition dijkstra :: "Graph \<Rightarrow> string \<Rightarrow> string \<Rightarrow> bool \<Rightarrow> search_result option" where
  "dijkstra graph startId endId isEmergency =
     map_option fst (dijkstra_call graph startId endId isEmergency)"


section \<open>A* with the Euclidean heuristic\<close>

text \<open>
  The closure \<open>heuristic\<close> of a call reads the graph and the end node of that call:
  they are its first two arguments.
\<close>

definition heuristic :: "Graph \<Rightarrow> Node \<Rightarrow> string \<Rightarrow> number" where
  "heuristic graph endNode nodeId =
     (case map_of (nodes graph) nodeId of
        None \<Rightarrow> Infinity
      | Some node \<Rightarrow>
          Num (sqrt ((x_node node - x_node endNode)\<^sup>2 + (y_node node - y_node endNode)\<^sup>2)))"

record aStar_state =
  graph_a :: Graph
  gScore :: "(string, number) js_map"
  fScore :: "(string, number) js_map"
  previous_a :: "(string, string option) js_map"
  visited_a :: "string list"
  pq_a :: "string entry list"

definition init_fScore :: "Graph \<Rightarrow> Node \<Rightarrow> string \<Rightarrow> (string, number) js_map" where
  "init_fScore graph endNode startId =
     fold (\<lambda>(id, _) fScore.
             AList.update id (if id = startId then heuristic graph endNode startId else Infinity)
               fScore)
          (nodes graph) []"

text \<open>Lines 183 to 189.\<close>

definition edge_cost_a :: "bool \<Rightarrow> Edge \<Rightarrow> real option" where
  "edge_cost_a isEmergency edge =
     (if blocked edge \<and> \<not> isEmergency then None
      else
        (let effectiveWeight = weight edge;
             effectiveWeight =
               (if \<not> isEmergency then effectiveWeight * (1 + traffic edge * 2)
                else effectiveWeight)
         in Some effectiveWeight))"

definition relax_a :: "Node \<Rightarrow> bool \<Rightarrow> string \<Rightarrow> Edge \<Rightarrow> aStar_state \<Rightarrow> aStar_state" where
  "relax_a endNode isEmergency current edge st =
     (case edge_cost_a isEmergency edge of
        None \<Rightarrow> st
      | Some effectiveWeight \<Rightarrow>
          (let neighbor = to_edge edge;
               tentativeGScore = num_add (get_num (gScore st) current) (Num effectiveWeight)
           in if num_less tentativeGScore (get_num (gScore st) neighbor)
              then
                (let fScore' =
                       AList.update neighbor
                         (num_add tentativeGScore (heuristic (graph_a st) endNode neighbor))
                         (fScore st)
                 in st\<lparr>previous_a := AList.update neighbor (Some current) (previous_a st),
                        gScore := AList.update neighbor tentativeGScore (gScore st),
                        fScore := fScore',
                        pq_a := enqueue neighbor (get_num fScore' neighbor) (pq_a st)\<rparr>)
              else st))"

lemma relax_a_graph [simp]: "graph_a (relax_a en em cur e st) = graph_a st"
  by (simp add: relax_a_def Let_def split: option.splits)

lemma relax_a_visited [simp]: "visited_a (relax_a en em cur e st) = visited_a st"
  by (simp add: relax_a_def Let_def split: option.splits)

lemma relax_a_keys [simp]:
  "fst ` set (gScore (relax_a en em cur e st)) = fst ` set (gScore st)"
  by (simp add: relax_a_def Let_def update_keys_present get_num_less_key split: option.splits)

lemma relax_a_queue:
  "snd ` set (pq_a (relax_a en em cur e st))
     \<subseteq> snd ` set (pq_a st) \<union> fst ` set (gScore st)"
  by (auto simp: relax_a_def Let_def set_enqueue split: option.splits
      dest: get_num_less_key)

lemma fold_relax_a_graph [simp]: "graph_a (fold (relax_a en em cur) es st) = graph_a st"
  by (induction es arbitrary: st) simp_all

lemma fold_relax_a_visited [simp]:
  "visited_a (fold (relax_a en em cur) es st) = visited_a st"
  by (induction es arbitrary: st) simp_all

lemma fold_relax_a_keys [simp]:
  "fst ` set (gScore (fold (relax_a en em cur) es st)) = fst ` set (gScore st)"
  by (induction es arbitrary: st) simp_all

lemma fold_relax_a_queue:
  "snd ` set (pq_a (fold (relax_a en em cur) es st))
     \<subseteq> snd ` set (pq_a st) \<union> fst ` set (gScore st)"
proof (induction es arbitrary: st)
  case Nil
  show ?case by simp
next
  case (Cons e es)
  have "snd ` set (pq_a (fold (relax_a en em cur) (e # es) st))
        \<subseteq> snd ` set (pq_a (relax_a en em cur e st)) \<union> fst ` set (gScore st)"
    using Cons.IH [of "relax_a en em cur e st"] by simp
  with relax_a_queue [of en em cur e st] show ?case by blast
qed

definition unsettled_a :: "aStar_state \<Rightarrow> string set" where
  "unsettled_a st = (snd ` set (pq_a st) \<union> fst ` set (gScore st)) - set (visited_a st)"

lemma unsettled_a_finite [simp]: "finite (unsettled_a st)"
  by (simp add: unsettled_a_def)

lemma dequeue_stale_a:
  assumes "\<not> isEmpty (pq_a st)" "(x, y) = dequeue (pq_a st)"
  shows "card (unsettled_a (st\<lparr>pq_a := y\<rparr>)) \<le> card (unsettled_a st)"
    and "length y < length (pq_a st)"
proof -
  have d: "dequeue (pq_a st) = (x, y)" using assms(2) by simp
  have ne: "pq_a st \<noteq> []" using assms(1) by (simp add: isEmpty_def)
  have "unsettled_a (st\<lparr>pq_a := y\<rparr>) \<subseteq> unsettled_a st"
    using dequeue_set [OF d ne] by (auto simp: unsettled_a_def)
  then show "card (unsettled_a (st\<lparr>pq_a := y\<rparr>)) \<le> card (unsettled_a st)"
    by (intro card_mono) simp_all
  show "length y < length (pq_a st)" using dequeue_length [OF d ne] by simp
qed

lemma dequeue_visit_a:
  assumes "\<not> isEmpty (pq_a st)" "(Some current, y) = dequeue (pq_a st)"
    and "current \<notin> set (visited_a st)"
  shows "card (unsettled_a (fold (relax_a en em current) es
                 (st\<lparr>pq_a := y, visited_a := visited_a st @ [current]\<rparr>)))
         < card (unsettled_a st)"
proof -
  let ?st1 = "st\<lparr>pq_a := y, visited_a := visited_a st @ [current]\<rparr>"
  let ?st2 = "fold (relax_a en em current) es ?st1"
  have d: "dequeue (pq_a st) = (Some current, y)" using assms(2) by simp
  have ne: "pq_a st \<noteq> []" using assms(1) by (simp add: isEmpty_def)
  from dequeue_cases [OF d ne] have c: "current = snd (pq_a st ! 0)" by simp
  have s: "set (pq_a st) = insert (pq_a st ! 0) (set y)" by (rule dequeue_set [OF d ne])
  have in_q: "current \<in> snd ` set (pq_a st)" using c s by auto
  have sub: "unsettled_a ?st2 \<subseteq> unsettled_a st - {current}"
    using fold_relax_a_queue [of en em current es ?st1] s
    unfolding unsettled_a_def by auto
  have "unsettled_a st - {current} \<subset> unsettled_a st"
    using in_q assms(3) by (auto simp: unsettled_a_def)
  with sub have "unsettled_a ?st2 \<subset> unsettled_a st" by blast
  then show ?thesis by (intro psubset_card_mono) simp_all
qed

function aStar_loop :: "Node \<Rightarrow> string \<Rightarrow> bool \<Rightarrow> aStar_state \<Rightarrow> aStar_state" where
  "aStar_loop endNode endId isEmergency st =
     (if isEmpty (pq_a st) then st
      else
        (case dequeue (pq_a st) of
           (None, pq') \<Rightarrow> st\<lparr>pq_a := pq'\<rparr>
         | (Some current, pq') \<Rightarrow>
             (if current \<in> set (visited_a st)
              then aStar_loop endNode endId isEmergency (st\<lparr>pq_a := pq'\<rparr>)
              else if current = endId
              then st\<lparr>pq_a := pq', visited_a := visited_a st @ [current]\<rparr>
              else aStar_loop endNode endId isEmergency
                     (fold (relax_a endNode isEmergency current)
                        (edges_of (graph_a st) current)
                        (st\<lparr>pq_a := pq', visited_a := visited_a st @ [current]\<rparr>)))))"
  by pat_completeness auto
termination
proof (relation "inv_image (less_than <*lex*> less_than)
                   (\<lambda>(endNode, endId, isEmergency, st).
                      (card (unsettled_a st), length (pq_a st)))",
       goal_cases)
  case 1
  show ?case by (intro wf_inv_image wf_lex_prod wf_less_than)
next
  case (2 endNode endId isEmergency st x y x2)
  from dequeue_stale_a [OF 2(1,2)] show ?case by auto
next
  case (3 endNode endId isEmergency st x y x2)
  from 3(2,3) have "(Some x2, y) = dequeue (pq_a st)" by simp
  from dequeue_visit_a [OF 3(1) this 3(4)] show ?case by auto
qed

declare aStar_loop.simps [simp del]

definition aStar_init :: "Graph \<Rightarrow> Node \<Rightarrow> string \<Rightarrow> aStar_state" where
  "aStar_init graph endNode startId =
     (let fScore0 = init_fScore graph endNode startId in
      \<lparr>graph_a = graph,
       gScore = init_distances graph startId,
       fScore = fScore0,
       previous_a = init_previous graph,
       visited_a = [],
       pq_a = enqueue startId (get_num fScore0 startId) []\<rparr>)"

definition aStar_call ::
  "Graph \<Rightarrow> string \<Rightarrow> string \<Rightarrow> bool \<Rightarrow> (search_result \<times> Graph) option" where
  "aStar_call graph startId endId isEmergency =
     (case (map_of (nodes graph) startId, map_of (nodes graph) endId) of
        (Some startNode, Some endNode) \<Rightarrow>
          (let st = aStar_loop endNode endId isEmergency (aStar_init graph endNode startId) in
           case reconstruct (previous_a st) (Some endId) [] of
             None \<Rightarrow> None
           | Some pth \<Rightarrow>
               Some (\<lparr>path = path_from startId pth,
                      distance = or_Infinity (map_of (gScore st) endId),
                      visited = visited_a st\<rparr>,
                     graph_a st))
      | _ \<Rightarrow> Some (\<lparr>path = [], distance = Infinity, visited = []\<rparr>, graph))"

definition aStar :: "Graph \<Rightarrow> string \<Rightarrow> string \<Rightarrow> bool \<Rightarrow> search_result option" where
  "aStar graph startId endId isEmergency =
     map_option fst (aStar_call graph startId endId isEmergency)"

section \<open>Bellman-Ford\<close>

record bellmanFord_state =
  graph_b :: Graph
  distances_b :: "(string, number) js_map"
  previous_b :: "(string, string option) js_map"

text \<open>Lines 237 to 243; an entry \<open>{ from, to, weight }\<close> of \<open>allEdges\<close> is a triple.\<close>

definition edge_cost_b :: "bool \<Rightarrow> Edge \<Rightarrow> real option" where
  "edge_cost_b isEmergency edge =
     (if \<not> blocked edge \<or> isEmergency then
        (let effectiveWeight = weight edge;
             effectiveWeight =
               (if \<not> isEmergency then effectiveWeight * (1 + traffic edge * 2)
                else effectiveWeight)
         in Some effectiveWeight)
      else None)"

type_synonym flat_edge = "string \<times> string \<times> real"

definition all_edges :: "Graph \<Rightarrow> bool \<Rightarrow> flat_edge list" where
  "all_edges graph isEmergency =
     concat (map (\<lambda>(from, es).
                    concat (map (\<lambda>edge.
                                   case edge_cost_b isEmergency edge of
                                     None \<Rightarrow> []
                                   | Some effectiveWeight \<Rightarrow>
                                       [(from, to_edge edge, effectiveWeight)])
                                es))
                 (edges graph))"

definition still_relaxes :: "(string, number) js_map \<Rightarrow> flat_edge \<Rightarrow> bool" where
  "still_relaxes distances e =
     (case e of (from, to, w) \<Rightarrow>
        num_less (num_add (get_num distances from) (Num w)) (get_num distances to))"

definition relax_b :: "flat_edge \<Rightarrow> bellmanFord_state \<Rightarrow> bellmanFord_state" where
  "relax_b e st =
     (case e of (from, to, w) \<Rightarrow>
        (let newDist = num_add (get_num (distances_b st) from) (Num w) in
         if num_less newDist (get_num (distances_b st) to)
         then st\<lparr>distances_b := AList.update to newDist (distances_b st),
                 previous_b := AList.update to (Some from) (previous_b st)\<rparr>
         else st))"

text \<open>\<open>for (let i = 0; i < nodeCount - 1; i++)\<close>, counted down.\<close>

fun relax_passes :: "nat \<Rightarrow> flat_edge list \<Rightarrow> bellmanFord_state \<Rightarrow> bellmanFord_state" where
  "relax_passes 0 allEdges st = st"
| "relax_passes (Suc n) allEdges st = relax_passes n allEdges (fold relax_b allEdges st)"

definition bellmanFord_init :: "Graph \<Rightarrow> string \<Rightarrow> bellmanFord_state" where
  "bellmanFord_init graph startId =
     \<lparr>graph_b = graph,
      distances_b = init_distances graph startId,
      previous_b = init_previous graph\<rparr>"

text \<open>
  The variables after the \<open>|V| - 1\<close> passes. For an empty node map \<open>nodeCount - 1\<close> is
  \<open>-1\<close> and the loop body never runs, as with the truncated difference here.
\<close>

definition bellmanFord_relaxed :: "Graph \<Rightarrow> string \<Rightarrow> bool \<Rightarrow> bellmanFord_state" where
  "bellmanFord_relaxed graph startId isEmergency =
     (let nodeCount = length (nodes graph) in
      relax_passes (nodeCount - 1) (all_edges graph isEmergency)
        (bellmanFord_init graph startId))"

definition bellmanFord_call ::
  "Graph \<Rightarrow> string \<Rightarrow> string \<Rightarrow> bool \<Rightarrow> (bellmanFord_result \<times> Graph) option" where
  "bellmanFord_call graph startId endId isEmergency =
     (let allEdges = all_edges graph isEmergency;
          st = bellmanFord_relaxed graph startId isEmergency;
          negativeCycle = list_ex (still_relaxes (distances_b st)) allEdges
      in case reconstruct (previous_b st) (Some endId) [] of
           None \<Rightarrow> None
         | Some pth \<Rightarrow>
             Some (\<lparr>path = path_from startId pth,
                    distance = or_Infinity (map_of (distances_b st) endId),
                    hasNegativeCycle = negativeCycle\<rparr>,
                   graph_b st))"

definition bellmanFord ::
  "Graph \<Rightarrow> string \<Rightarrow> string \<Rightarrow> bool \<Rightarrow> bellmanFord_result option" where
  "bellmanFord graph startId endId isEmergency =
     map_option fst (bellmanFord_call graph startId endId isEmergency)"


section \<open>The cost rule of the specification, and routes\<close>

text \<open>
  The cost evaluator as the specification words it (section 4.2): in emergency mode the
  weight of the edge, blocked or not; otherwise nothing for a blocked edge (\<open>None\<close>: not
  traversable) and \<open>weight * (1 + traffic * 2)\<close> for an open one. The three algorithms
  do not call such a function; each has the rule inline (\<open>edge_cost_d\<close>,
  \<open>edge_cost_a\<close>, \<open>edge_cost_b\<close> above).
\<close>

definition effective_weight :: "Edge \<Rightarrow> bool \<Rightarrow> real option" where
  "effective_weight edge emergency =
     (if emergency then Some (weight edge)
      else if blocked edge then None
      else Some (weight edge * (1 + traffic edge * 2)))"

text \<open>
  One step of a route: an edge in the list of \<open>u\<close> that is traversable at cost \<open>w\<close>
  and leads to a node of the node map.
\<close>

definition hop :: "Graph \<Rightarrow> bool \<Rightarrow> string \<Rightarrow> string \<Rightarrow> real \<Rightarrow> bool" where
  "hop graph emergency u v w =
     (v \<in> fst ` set (nodes graph) \<and>
      (\<exists>edge \<in> set (edges_of graph u). to_edge edge = v \<and> effective_weight edge emergency = Some w))"

text \<open>
  \<open>route graph emergency s v a\<close>: some traversable path leads from \<open>s\<close> to \<open>v\<close> with
  accumulated effective weight \<open>a\<close>. The empty path has weight \<open>0\<close>.
\<close>

inductive route :: "Graph \<Rightarrow> bool \<Rightarrow> string \<Rightarrow> string \<Rightarrow> real \<Rightarrow> bool"
  for graph :: Graph and emergency :: bool and s :: string
where
  route_start: "route graph emergency s s 0"
| route_hop: "route graph emergency s u a \<Longrightarrow> hop graph emergency u v w
              \<Longrightarrow> route graph emergency s v (a + w)"

section \<open>Example graphs\<close>

definition node_at :: "string \<Rightarrow> real \<Rightarrow> real \<Rightarrow> Node" where
  "node_at i px py = \<lparr>id_node = i, x_node = px, y_node = py, label_node = i, type_node = Normal\<rparr>"

definition road :: "string \<Rightarrow> string \<Rightarrow> real \<Rightarrow> Edge" where
  "road a b w = \<lparr>from_edge = a, to_edge = b, weight = w, traffic = 0, blocked = False\<rparr>"

text \<open>
  The scenario of the specification (section 8): \<open>A\<close>, \<open>B\<close>, \<open>D\<close> on a line, roads
  \<open>A-B\<close> and \<open>B-D\<close> of weight 10 and a direct road \<open>A-D\<close> of weight 30.
\<close>

definition line_graph :: Graph where
  "line_graph =
     \<lparr>nodes = [(''A'', node_at ''A'' 0 0), (''B'', node_at ''B'' 10 0), (''D'', node_at ''D'' 20 0)],
      edges = [(''A'', [road ''A'' ''B'' 10, road ''A'' ''D'' 30]),
               (''B'', [road ''B'' ''A'' 10, road ''B'' ''D'' 10]),
               (''D'', [road ''D'' ''B'' 10, road ''D'' ''A'' 30])]\<rparr>"

text \<open>Two nodes and a road of weight \<open>0\<close> from \<open>A\<close> to \<open>B\<close>.\<close>

definition free_road_graph :: Graph where
  "free_road_graph =
     \<lparr>nodes = [(''A'', node_at ''A'' 0 0), (''B'', node_at ''B'' 0 0)],
      edges = [(''A'', [road ''A'' ''B'' 0])]\<rparr>"

text \<open>
  The negative cycle of the specification (section 8): \<open>A \<rightarrow> B\<close>, \<open>B \<rightarrow> C\<close>,
  \<open>C \<rightarrow> A\<close>, each of weight \<open>-5\<close>, entered in this order.
\<close>

definition negative_triangle :: Graph where
  "negative_triangle =
     \<lparr>nodes = [(''A'', node_at ''A'' 0 0), (''B'', node_at ''B'' 0 0), (''C'', node_at ''C'' 0 0)],
      edges = [(''A'', [road ''A'' ''B'' (- 5)]),
               (''B'', [road ''B'' ''C'' (- 5)]),
               (''C'', [road ''C'' ''A'' (- 5)])]\<rparr>"

text \<open>A closed road with traffic, and the same road open.\<close>

definition closed_road :: Edge where
  "closed_road = \<lparr>from_edge = ''A'', to_edge = ''B'', weight = 10, traffic = 1 / 2, blocked = True\<rparr>"

definition busy_road :: Edge where
  "busy_road = \<lparr>from_edge = ''A'', to_edge = ''B'', weight = 10, traffic = 1 / 2, blocked = False\<rparr>"


text \<open>Two nodes and the congested road from \<open>A\<close> to \<open>B\<close>.\<close>

definition busy_graph :: Graph where
  "busy_graph =
     \<lparr>nodes = [(''A'', node_at ''A'' 0 0), (''B'', node_at ''B'' 0 0)],
      edges = [(''A'', [closed_road, busy_road])]\<rparr>"

text \<open>The line graph with one more edge, from \<open>A\<close> to an id \<open>Z\<close> that is no node.\<close>

definition dangling_line_graph :: Graph where
  "dangling_line_graph =
     line_graph\<lparr>edges := [(''A'', [road ''A'' ''Z'' 1, road ''A'' ''B'' 10, road ''A'' ''D'' 30]),
                           (''B'', [road ''B'' ''A'' 10, road ''B'' ''D'' 10]),
                           (''D'', [road ''D'' ''B'' 10, road ''D'' ''A'' 30])]\<rparr>"

section \<open>Evaluation\<close>

lemmas queue_eval =
  enqueue_def dequeue_def isEmpty_def bubbleUp.simps bubbleDown.simps smallest_of_def
  swap_def Let_def

lemmas common_eval =
  init_distances_def init_previous_def edges_of_def get_num_def or_Infinity_def
  or_null_def path_from_def reconstruct.simps node_at_def road_def

lemmas dijkstra_eval =
  dijkstra_def dijkstra_call_def dijkstra_init_def dijkstra_loop.simps relax_d_def
  edge_cost_d_def

lemmas aStar_eval =
  aStar_def aStar_call_def aStar_init_def init_fScore_def heuristic_def aStar_loop.simps
  relax_a_def edge_cost_a_def

lemmas bellmanFord_eval =
  bellmanFord_def bellmanFord_call_def bellmanFord_relaxed_def bellmanFord_init_def
  all_edges_def edge_cost_b_def still_relaxes_def relax_b_def numeral_2_eq_2

section \<open>Path reconstruction on a cycle\<close>

lemma reconstruct_Some_not_cycle:
  assumes "reconstruct prev cur pth = Some y"
  shows "(\<forall>c\<in>S. \<exists>c'\<in>S. or_null (map_of prev c) = Some c') \<longrightarrow> cur \<notin> Some ` S"
proof (rule reconstruct.raw_induct [rotated, OF assms,
        where P = "\<lambda>p cur pt y. (\<forall>c\<in>S. \<exists>c'\<in>S. or_null (map_of p c) = Some c')
                                 \<longrightarrow> cur \<notin> Some ` S"])
  fix f :: "(string, string option) js_map \<Rightarrow> string option \<Rightarrow> string list \<Rightarrow> string list option"
    and p cur pt y
  assume IH: "\<And>p cur pt y. f p cur pt = Some y \<Longrightarrow>
                (\<forall>c\<in>S. \<exists>c'\<in>S. or_null (map_of p c) = Some c') \<longrightarrow> cur \<notin> Some ` S"
    and eq: "(case cur of None \<Rightarrow> Some pt
              | Some c \<Rightarrow> f p (or_null (map_of p c)) (c # pt)) = Some y"
  show "(\<forall>c\<in>S. \<exists>c'\<in>S. or_null (map_of p c) = Some c') \<longrightarrow> cur \<notin> Some ` S"
  proof (intro impI notI)
    assume closed: "\<forall>c\<in>S. \<exists>c'\<in>S. or_null (map_of p c) = Some c'" and "cur \<in> Some ` S"
    then obtain d d' where d: "cur = Some d" "d \<in> S" "d' \<in> S" "or_null (map_of p d) = Some d'"
      by auto
    with eq have "f p (Some d') (d # pt) = Some y" by simp
    from IH [OF this] closed d(3) show False by auto
  qed
qed

text \<open>
  When the predecessor links lead from a set of ids back into the set, the loop started
  inside the set never ends.
\<close>

lemma reconstruct_cycle:
  assumes "\<forall>c\<in>S. \<exists>c'\<in>S. or_null (map_of prev c) = Some c'" and "c \<in> S"
  shows "reconstruct prev (Some c) pth = None"
proof (cases "reconstruct prev (Some c) pth")
  case None
  then show ?thesis .
next
  case (Some y)
  from reconstruct_Some_not_cycle [OF Some, of S] assms show ?thesis by auto
qed

section \<open>Rules for the two search loops\<close>

text \<open>
  A property \<open>I\<close> that holds before the loop and is kept by a pass that discards a
  stale entry and by a pass that settles a node other than the destination holds when the
  loop ends, be it on an empty queue or on the destination.
\<close>

lemma dijkstra_loop_rule:
  "I st \<Longrightarrow>
   (\<And>st c pq'. I st \<Longrightarrow> pq_d st \<noteq> [] \<Longrightarrow> dequeue (pq_d st) = (Some c, pq')
                  \<Longrightarrow> c \<in> set (visited_d st) \<Longrightarrow> I (st\<lparr>pq_d := pq'\<rparr>)) \<Longrightarrow>
   (\<And>st c pq'. I st \<Longrightarrow> pq_d st \<noteq> [] \<Longrightarrow> dequeue (pq_d st) = (Some c, pq')
                  \<Longrightarrow> c \<notin> set (visited_d st) \<Longrightarrow> c \<noteq> endId
                  \<Longrightarrow> I (fold (relax_d em c) (edges_of (graph_d st) c)
                          (st\<lparr>pq_d := pq', visited_d := visited_d st @ [c]\<rparr>))) \<Longrightarrow>
   (\<And>st. I st \<Longrightarrow> pq_d st = [] \<Longrightarrow> Q st) \<Longrightarrow>
   (\<And>st pq'. I st \<Longrightarrow> pq_d st \<noteq> [] \<Longrightarrow> dequeue (pq_d st) = (Some endId, pq')
                  \<Longrightarrow> endId \<notin> set (visited_d st)
                  \<Longrightarrow> Q (st\<lparr>pq_d := pq', visited_d := visited_d st @ [endId]\<rparr>)) \<Longrightarrow>
   Q (dijkstra_loop endId em st)"
proof (induction endId em st rule: dijkstra_loop.induct)
  case (1 endId em st)
  note init = "1.prems"(1) and stale = "1.prems"(2) and visit = "1.prems"(3)
    and empty = "1.prems"(4) and found = "1.prems"(5)
  show ?case
  proof (cases "pq_d st = []")
    case True
    with empty [OF init] show ?thesis
      by (subst dijkstra_loop.simps) (simp add: isEmpty_def)
  next
    case False
    from dequeue_nonempty [OF False] obtain c pq' where
      d: "dequeue (pq_d st) = (Some c, pq')" by blast
    have ne: "\<not> isEmpty (pq_d st)" using False by (simp add: isEmpty_def)
    have d': "(Some c, pq') = dequeue (pq_d st)" using d by simp
    show ?thesis
    proof (cases "c \<in> set (visited_d st)")
      case True
      have "Q (dijkstra_loop endId em (st\<lparr>pq_d := pq'\<rparr>))"
        by (rule "1.IH"(1) [OF ne d' refl True stale [OF init False d True] stale visit empty found])
      then show ?thesis using False d True
        by (subst dijkstra_loop.simps) (simp add: isEmpty_def)
    next
      case nv: False
      show ?thesis
      proof (cases "c = endId")
        case True
        have de: "dequeue (pq_d st) = (Some endId, pq')" and nve: "endId \<notin> set (visited_d st)"
          using d nv True by simp_all
        have "Q (st\<lparr>pq_d := pq', visited_d := visited_d st @ [endId]\<rparr>)"
          by (rule found [OF init False de nve])
        then show ?thesis using d nv False True
          by (subst dijkstra_loop.simps) (simp add: isEmpty_def)
      next
        case ne': False
        have "Q (dijkstra_loop endId em (fold (relax_d em c) (edges_of (graph_d st) c)
                          (st\<lparr>pq_d := pq', visited_d := visited_d st @ [c]\<rparr>)))"
          by (rule "1.IH"(2) [OF ne d' refl nv ne' visit [OF init False d nv ne']
                stale visit empty found])
        then show ?thesis using False d nv ne'
          by (subst dijkstra_loop.simps) (simp add: isEmpty_def)
      qed
    qed
  qed
qed

lemma aStar_loop_rule:
  "I st \<Longrightarrow>
   (\<And>st c pq'. I st \<Longrightarrow> pq_a st \<noteq> [] \<Longrightarrow> dequeue (pq_a st) = (Some c, pq')
                  \<Longrightarrow> c \<in> set (visited_a st) \<Longrightarrow> I (st\<lparr>pq_a := pq'\<rparr>)) \<Longrightarrow>
   (\<And>st c pq'. I st \<Longrightarrow> pq_a st \<noteq> [] \<Longrightarrow> dequeue (pq_a st) = (Some c, pq')
                  \<Longrightarrow> c \<notin> set (visited_a st) \<Longrightarrow> c \<noteq> endId
                  \<Longrightarrow> I (fold (relax_a endNode em c) (edges_of (graph_a st) c)
                          (st\<lparr>pq_a := pq', visited_a := visited_a st @ [c]\<rparr>))) \<Longrightarrow>
   (\<And>st. I st \<Longrightarrow> pq_a st = [] \<Longrightarrow> Q st) \<Longrightarrow>
   (\<And>st pq'. I st \<Longrightarrow> pq_a st \<noteq> [] \<Longrightarrow> dequeue (pq_a st) = (Some endId, pq')
                  \<Longrightarrow> endId \<notin> set (visited_a st)
                  \<Longrightarrow> Q (st\<lparr>pq_a := pq', visited_a := visited_a st @ [endId]\<rparr>)) \<Longrightarrow>
   Q (aStar_loop endNode endId em st)"
proof (induction endNode endId em st rule: aStar_loop.induct)
  case (1 endNode endId em st)
  note init = "1.prems"(1) and stale = "1.prems"(2) and visit = "1.prems"(3)
    and empty = "1.prems"(4) and found = "1.prems"(5)
  show ?case
  proof (cases "pq_a st = []")
    case True
    with empty [OF init] show ?thesis
      by (subst aStar_loop.simps) (simp add: isEmpty_def)
  next
    case False
    from dequeue_nonempty [OF False] obtain c pq' where
      d: "dequeue (pq_a st) = (Some c, pq')" by blast
    have ne: "\<not> isEmpty (pq_a st)" using False by (simp add: isEmpty_def)
    have d': "(Some c, pq') = dequeue (pq_a st)" using d by simp
    show ?thesis
    proof (cases "c \<in> set (visited_a st)")
      case True
      have "Q (aStar_loop endNode endId em (st\<lparr>pq_a := pq'\<rparr>))"
        by (rule "1.IH"(1) [OF ne d' refl True stale [OF init False d True] stale visit empty found])
      then show ?thesis using False d True
        by (subst aStar_loop.simps) (simp add: isEmpty_def)
    next
      case nv: False
      show ?thesis
      proof (cases "c = endId")
        case True
        have de: "dequeue (pq_a st) = (Some endId, pq')" and nve: "endId \<notin> set (visited_a st)"
          using d nv True by simp_all
        have "Q (st\<lparr>pq_a := pq', visited_a := visited_a st @ [endId]\<rparr>)"
          by (rule found [OF init False de nve])
        then show ?thesis using d nv False True
          by (subst aStar_loop.simps) (simp add: isEmpty_def)
      next
        case ne': False
        have "Q (aStar_loop endNode endId em (fold (relax_a endNode em c) (edges_of (graph_a st) c)
                          (st\<lparr>pq_a := pq', visited_a := visited_a st @ [c]\<rparr>)))"
          by (rule "1.IH"(2) [OF ne d' refl nv ne' visit [OF init False d nv ne']
                stale visit empty found])
        then show ?thesis using False d nv ne'
          by (subst aStar_loop.simps) (simp add: isEmpty_def)
      qed
    qed
  qed
qed


subsection \<open>The passes of the loops\<close>

lemma dijkstra_loop_empty: "pq_d st = [] \<Longrightarrow> dijkstra_loop endId em st = st"
  by (subst dijkstra_loop.simps) (simp add: isEmpty_def)

lemma dijkstra_loop_stale:
  "pq_d st \<noteq> [] \<Longrightarrow> dequeue (pq_d st) = (Some c, pq') \<Longrightarrow> c \<in> set (visited_d st) \<Longrightarrow>
   dijkstra_loop endId em st = dijkstra_loop endId em (st\<lparr>pq_d := pq'\<rparr>)"
  by (subst dijkstra_loop.simps) (simp add: isEmpty_def)

lemma dijkstra_loop_found:
  "pq_d st \<noteq> [] \<Longrightarrow> dequeue (pq_d st) = (Some endId, pq') \<Longrightarrow> endId \<notin> set (visited_d st) \<Longrightarrow>
   dijkstra_loop endId em st = st\<lparr>pq_d := pq', visited_d := visited_d st @ [endId]\<rparr>"
  by (subst dijkstra_loop.simps) (simp add: isEmpty_def)

lemma dijkstra_loop_visit:
  "pq_d st \<noteq> [] \<Longrightarrow> dequeue (pq_d st) = (Some c, pq') \<Longrightarrow> c \<notin> set (visited_d st) \<Longrightarrow>
   c \<noteq> endId \<Longrightarrow>
   dijkstra_loop endId em st
   = dijkstra_loop endId em
       (fold (relax_d em c) (edges_of (graph_d st) c)
          (st\<lparr>pq_d := pq', visited_d := visited_d st @ [c]\<rparr>))"
  by (subst dijkstra_loop.simps) (simp add: isEmpty_def)

subsection \<open>Two runs that relax alike\<close>

text \<open>
  A run on the graph \<open>g'\<close> in mode \<open>em'\<close> goes through the same states, graph field
  apart, as a run in mode \<open>em\<close> whose relaxations it matches.
\<close>

lemma dijkstra_loop_cong:
  "I st \<Longrightarrow>
   (\<And>st q v. I st \<Longrightarrow> I (st\<lparr>pq_d := q, visited_d := v\<rparr>)) \<Longrightarrow>
   (\<And>st c. I st \<Longrightarrow> I (fold (relax_d em c) (edges_of (graph_d st) c) st)) \<Longrightarrow>
   (\<And>st c. I st \<Longrightarrow>
       fold (relax_d em' c) (edges_of g' c) (st\<lparr>graph_d := g'\<rparr>)
       = (fold (relax_d em c) (edges_of (graph_d st) c) st)\<lparr>graph_d := g'\<rparr>) \<Longrightarrow>
   dijkstra_loop endId em' (st\<lparr>graph_d := g'\<rparr>)
   = (dijkstra_loop endId em st)\<lparr>graph_d := g'\<rparr>"
proof (induction endId em st rule: dijkstra_loop.induct)
  case (1 endId em st)
  note init = "1.prems"(1) and upd = "1.prems"(2) and keep = "1.prems"(3) and same = "1.prems"(4)
  let ?st' = "st\<lparr>graph_d := g'\<rparr>"
  show ?case
  proof (cases "pq_d st = []")
    case True
    then show ?thesis by (simp add: dijkstra_loop_empty)
  next
    case False
    from dequeue_nonempty [OF False] obtain c pq' where
      d: "dequeue (pq_d st) = (Some c, pq')" by blast
    have ne: "\<not> isEmpty (pq_d st)" using False by (simp add: isEmpty_def)
    have d': "(Some c, pq') = dequeue (pq_d st)" using d by simp
    have False': "pq_d ?st' \<noteq> []" and dd: "dequeue (pq_d ?st') = (Some c, pq')"
      using False d by simp_all
    show ?thesis
    proof (cases "c \<in> set (visited_d st)")
      case True
      then have True': "c \<in> set (visited_d ?st')" by simp
      have "I (st\<lparr>pq_d := pq', visited_d := visited_d st\<rparr>)" by (rule upd [OF init])
      then have I1: "I (st\<lparr>pq_d := pq'\<rparr>)" by simp
      have "dijkstra_loop endId em' ?st' = dijkstra_loop endId em' (?st'\<lparr>pq_d := pq'\<rparr>)"
        by (rule dijkstra_loop_stale [OF False' dd True'])
      also have "?st'\<lparr>pq_d := pq'\<rparr> = st\<lparr>pq_d := pq'\<rparr>\<lparr>graph_d := g'\<rparr>" by simp
      also have "dijkstra_loop endId em' (st\<lparr>pq_d := pq'\<rparr>\<lparr>graph_d := g'\<rparr>)
            = (dijkstra_loop endId em (st\<lparr>pq_d := pq'\<rparr>))\<lparr>graph_d := g'\<rparr>"
        by (rule "1.IH"(1) [OF ne d' refl True I1 upd keep same])
      also have "dijkstra_loop endId em (st\<lparr>pq_d := pq'\<rparr>) = dijkstra_loop endId em st"
        by (rule dijkstra_loop_stale [OF False d True, symmetric])
      finally show ?thesis .
    next
      case nv: False
      then have nv': "c \<notin> set (visited_d ?st')" by simp
      show ?thesis
      proof (cases "c = endId")
        case True
        have 1: "dijkstra_loop endId em st = st\<lparr>pq_d := pq', visited_d := visited_d st @ [endId]\<rparr>"
          using dijkstra_loop_found [OF False, of endId pq'] d nv True by simp
        have 2: "dijkstra_loop endId em' ?st'
                 = ?st'\<lparr>pq_d := pq', visited_d := visited_d ?st' @ [endId]\<rparr>"
          using dijkstra_loop_found [OF False', of endId pq'] dd nv' True by simp
        show ?thesis unfolding 1 2 by simp
      next
        case ne': False
        let ?st1 = "st\<lparr>pq_d := pq', visited_d := visited_d st @ [c]\<rparr>"
        let ?st2 = "fold (relax_d em c) (edges_of (graph_d st) c) ?st1"
        have I1: "I ?st1" by (rule upd [OF init])
        have "I (fold (relax_d em c) (edges_of (graph_d ?st1) c) ?st1)" by (rule keep [OF I1])
        then have I2: "I ?st2" by simp
        have st1: "?st'\<lparr>pq_d := pq', visited_d := visited_d ?st' @ [c]\<rparr> = ?st1\<lparr>graph_d := g'\<rparr>"
          by simp
        have "dijkstra_loop endId em' ?st'
              = dijkstra_loop endId em'
                  (fold (relax_d em' c) (edges_of (graph_d ?st') c)
                     (?st'\<lparr>pq_d := pq', visited_d := visited_d ?st' @ [c]\<rparr>))"
          by (rule dijkstra_loop_visit [OF False' dd nv' ne'])
        also have "fold (relax_d em' c) (edges_of (graph_d ?st') c)
                     (?st'\<lparr>pq_d := pq', visited_d := visited_d ?st' @ [c]\<rparr>)
                   = ?st2\<lparr>graph_d := g'\<rparr>"
          unfolding st1 using same [OF I1, of c] by simp
        also have "dijkstra_loop endId em' (?st2\<lparr>graph_d := g'\<rparr>)
              = (dijkstra_loop endId em ?st2)\<lparr>graph_d := g'\<rparr>"
          by (rule "1.IH"(2) [OF ne d' refl nv ne' I2 upd keep same])
        also have "dijkstra_loop endId em ?st2 = dijkstra_loop endId em st"
          by (rule dijkstra_loop_visit [OF False d nv ne', symmetric])
        finally show ?thesis .
      qed
    qed
  qed
qed



lemma aStar_loop_empty: "pq_a st = [] \<Longrightarrow> aStar_loop endNode endId em st = st"
  by (subst aStar_loop.simps) (simp add: isEmpty_def)

lemma aStar_loop_stale:
  "pq_a st \<noteq> [] \<Longrightarrow> dequeue (pq_a st) = (Some c, pq') \<Longrightarrow> c \<in> set (visited_a st) \<Longrightarrow>
   aStar_loop endNode endId em st = aStar_loop endNode endId em (st\<lparr>pq_a := pq'\<rparr>)"
  by (subst aStar_loop.simps) (simp add: isEmpty_def)

lemma aStar_loop_found:
  "pq_a st \<noteq> [] \<Longrightarrow> dequeue (pq_a st) = (Some endId, pq') \<Longrightarrow> endId \<notin> set (visited_a st) \<Longrightarrow>
   aStar_loop endNode endId em st = st\<lparr>pq_a := pq', visited_a := visited_a st @ [endId]\<rparr>"
  by (subst aStar_loop.simps) (simp add: isEmpty_def)

lemma aStar_loop_visit:
  "pq_a st \<noteq> [] \<Longrightarrow> dequeue (pq_a st) = (Some c, pq') \<Longrightarrow> c \<notin> set (visited_a st) \<Longrightarrow>
   c \<noteq> endId \<Longrightarrow>
   aStar_loop endNode endId em st
   = aStar_loop endNode endId em
       (fold (relax_a endNode em c) (edges_of (graph_a st) c)
          (st\<lparr>pq_a := pq', visited_a := visited_a st @ [c]\<rparr>))"
  by (subst aStar_loop.simps) (simp add: isEmpty_def)



lemma aStar_loop_cong:
  "I st \<Longrightarrow>
   (\<And>st q v. I st \<Longrightarrow> I (st\<lparr>pq_a := q, visited_a := v\<rparr>)) \<Longrightarrow>
   (\<And>st c. I st \<Longrightarrow> I (fold (relax_a endNode em c) (edges_of (graph_a st) c) st)) \<Longrightarrow>
   (\<And>st c. I st \<Longrightarrow>
       fold (relax_a endNode em' c) (edges_of g' c) (st\<lparr>graph_a := g'\<rparr>)
       = (fold (relax_a endNode em c) (edges_of (graph_a st) c) st)\<lparr>graph_a := g'\<rparr>) \<Longrightarrow>
   aStar_loop endNode endId em' (st\<lparr>graph_a := g'\<rparr>)
   = (aStar_loop endNode endId em st)\<lparr>graph_a := g'\<rparr>"
proof (induction endNode endId em st rule: aStar_loop.induct)
  case (1 endNode endId em st)
  note init = "1.prems"(1) and upd = "1.prems"(2) and keep = "1.prems"(3) and same = "1.prems"(4)
  let ?st' = "st\<lparr>graph_a := g'\<rparr>"
  show ?case
  proof (cases "pq_a st = []")
    case True
    then show ?thesis by (simp add: aStar_loop_empty)
  next
    case False
    from dequeue_nonempty [OF False] obtain c pq' where
      d: "dequeue (pq_a st) = (Some c, pq')" by blast
    have ne: "\<not> isEmpty (pq_a st)" using False by (simp add: isEmpty_def)
    have d': "(Some c, pq') = dequeue (pq_a st)" using d by simp
    have False': "pq_a ?st' \<noteq> []" and dd: "dequeue (pq_a ?st') = (Some c, pq')"
      using False d by simp_all
    show ?thesis
    proof (cases "c \<in> set (visited_a st)")
      case True
      then have True': "c \<in> set (visited_a ?st')" by simp
      have "I (st\<lparr>pq_a := pq', visited_a := visited_a st\<rparr>)" by (rule upd [OF init])
      then have I1: "I (st\<lparr>pq_a := pq'\<rparr>)" by simp
      have "aStar_loop endNode endId em' ?st' = aStar_loop endNode endId em' (?st'\<lparr>pq_a := pq'\<rparr>)"
        by (rule aStar_loop_stale [OF False' dd True'])
      also have "?st'\<lparr>pq_a := pq'\<rparr> = st\<lparr>pq_a := pq'\<rparr>\<lparr>graph_a := g'\<rparr>" by simp
      also have "aStar_loop endNode endId em' (st\<lparr>pq_a := pq'\<rparr>\<lparr>graph_a := g'\<rparr>)
            = (aStar_loop endNode endId em (st\<lparr>pq_a := pq'\<rparr>))\<lparr>graph_a := g'\<rparr>"
        by (rule "1.IH"(1) [OF ne d' refl True I1 upd keep same])
      also have "aStar_loop endNode endId em (st\<lparr>pq_a := pq'\<rparr>) = aStar_loop endNode endId em st"
        by (rule aStar_loop_stale [OF False d True, symmetric])
      finally show ?thesis .
    next
      case nv: False
      then have nv': "c \<notin> set (visited_a ?st')" by simp
      show ?thesis
      proof (cases "c = endId")
        case True
        have 1: "aStar_loop endNode endId em st = st\<lparr>pq_a := pq', visited_a := visited_a st @ [endId]\<rparr>"
          using aStar_loop_found [OF False, of endId pq'] d nv True by simp
        have 2: "aStar_loop endNode endId em' ?st'
                 = ?st'\<lparr>pq_a := pq', visited_a := visited_a ?st' @ [endId]\<rparr>"
          using aStar_loop_found [OF False', of endId pq'] dd nv' True by simp
        show ?thesis unfolding 1 2 by simp
      next
        case ne': False
        let ?st1 = "st\<lparr>pq_a := pq', visited_a := visited_a st @ [c]\<rparr>"
        let ?st2 = "fold (relax_a endNode em c) (edges_of (graph_a st) c) ?st1"
        have I1: "I ?st1" by (rule upd [OF init])
        have "I (fold (relax_a endNode em c) (edges_of (graph_a ?st1) c) ?st1)" by (rule keep [OF I1])
        then have I2: "I ?st2" by simp
        have st1: "?st'\<lparr>pq_a := pq', visited_a := visited_a ?st' @ [c]\<rparr> = ?st1\<lparr>graph_a := g'\<rparr>"
          by simp
        have "aStar_loop endNode endId em' ?st'
              = aStar_loop endNode endId em'
                  (fold (relax_a endNode em' c) (edges_of (graph_a ?st') c)
                     (?st'\<lparr>pq_a := pq', visited_a := visited_a ?st' @ [c]\<rparr>))"
          by (rule aStar_loop_visit [OF False' dd nv' ne'])
        also have "fold (relax_a endNode em' c) (edges_of (graph_a ?st') c)
                     (?st'\<lparr>pq_a := pq', visited_a := visited_a ?st' @ [c]\<rparr>)
                   = ?st2\<lparr>graph_a := g'\<rparr>"
          unfolding st1 using same [OF I1, of c] by simp
        also have "aStar_loop endNode endId em' (?st2\<lparr>graph_a := g'\<rparr>)
              = (aStar_loop endNode endId em ?st2)\<lparr>graph_a := g'\<rparr>"
          by (rule "1.IH"(2) [OF ne d' refl nv ne' I2 upd keep same])
        also have "aStar_loop endNode endId em ?st2 = aStar_loop endNode endId em st"
          by (rule aStar_loop_visit [OF False d nv ne', symmetric])
        finally show ?thesis .
      qed
    qed
  qed
qed


section \<open>Claims\<close>

text \<open>
  C3. A query from a node to itself returns the one-element path and, by the claim, the
  distance 0. On the line graph of the specification, from \<open>A\<close> to \<open>A\<close>, each of the
  three algorithms returns the path \<open>[A]\<close>, and the distance \<open>Infinity\<close>: the distance
  found is \<open>0\<close>, and \<open>distances.get(endId) || Infinity\<close> replaces the falsy \<open>0\<close>.
\<close>

theorem same_node_query_is_infinite:
  "dijkstra line_graph ''A'' ''A'' False
     = Some \<lparr>path = [''A''], distance = Infinity, visited = [''A'']\<rparr> \<and>
   aStar line_graph ''A'' ''A'' False
     = Some \<lparr>path = [''A''], distance = Infinity, visited = [''A'']\<rparr> \<and>
   bellmanFord line_graph ''A'' ''A'' False
     = Some \<lparr>path = [''A''], distance = Infinity, hasNegativeCycle = False\<rparr>"
proof (intro conjI)
  show "dijkstra line_graph ''A'' ''A'' False
     = Some \<lparr>path = [''A''], distance = Infinity, visited = [''A'']\<rparr>"
    by (simp add: line_graph_def queue_eval common_eval dijkstra_eval)
  show "aStar line_graph ''A'' ''A'' False
     = Some \<lparr>path = [''A''], distance = Infinity, visited = [''A'']\<rparr>"
    by (simp add: line_graph_def queue_eval common_eval aStar_eval)
  show "bellmanFord line_graph ''A'' ''A'' False
     = Some \<lparr>path = [''A''], distance = Infinity, hasNegativeCycle = False\<rparr>"
    by (simp add: line_graph_def common_eval bellmanFord_eval)
qed

text \<open>
  C1. The distance Dijkstra returns is the least accumulated weight of a traversable
  path. On the graph with one road of weight \<open>0\<close> from \<open>A\<close> to \<open>B\<close> there is a route of
  weight \<open>0\<close> from \<open>A\<close> to \<open>B\<close>, and it is the route Dijkstra returns as the path; the
  distance it returns is \<open>Infinity\<close>.
\<close>

theorem dijkstra_zero_distance_is_infinite:
  "route free_road_graph False ''A'' ''B'' 0 \<and>
   dijkstra free_road_graph ''A'' ''B'' False
     = Some \<lparr>path = [''A'', ''B''], distance = Infinity, visited = [''A'', ''B'']\<rparr>"
proof
  have "hop free_road_graph False ''A'' ''B'' 0"
    by (simp add: hop_def free_road_graph_def edges_of_def road_def effective_weight_def)
  from route_hop [OF route_start this] show "route free_road_graph False ''A'' ''B'' 0"
    by simp
  show "dijkstra free_road_graph ''A'' ''B'' False
     = Some \<lparr>path = [''A'', ''B''], distance = Infinity, visited = [''A'', ''B'']\<rparr>"
    by (simp add: free_road_graph_def queue_eval common_eval dijkstra_eval)
qed

text \<open>
  C7. A query whose source or destination is not a node returns the unreachable result,
  an empty path and an infinite distance. For the id \<open>Z\<close>, which is not a node of the
  line graph, as source and destination at once, A* returns that result (it checks both
  ids first); Dijkstra and Bellman-Ford return the path \<open>[Z]\<close>.
\<close>

theorem unknown_id_to_itself:
  "aStar line_graph ''Z'' ''Z'' False
     = Some \<lparr>path = [], distance = Infinity, visited = []\<rparr> \<and>
   dijkstra line_graph ''Z'' ''Z'' False
     = Some \<lparr>path = [''Z''], distance = Infinity, visited = [''Z'']\<rparr> \<and>
   bellmanFord line_graph ''Z'' ''Z'' False
     = Some \<lparr>path = [''Z''], distance = Infinity, hasNegativeCycle = False\<rparr>"
proof (intro conjI)
  show "aStar line_graph ''Z'' ''Z'' False
     = Some \<lparr>path = [], distance = Infinity, visited = []\<rparr>"
    by (simp add: line_graph_def aStar_def aStar_call_def)
  show "dijkstra line_graph ''Z'' ''Z'' False
     = Some \<lparr>path = [''Z''], distance = Infinity, visited = [''Z'']\<rparr>"
    by (simp add: line_graph_def queue_eval common_eval dijkstra_eval)
  show "bellmanFord line_graph ''Z'' ''Z'' False
     = Some \<lparr>path = [''Z''], distance = Infinity, hasNegativeCycle = False\<rparr>"
    by (simp add: line_graph_def common_eval bellmanFord_eval)
qed

lemma negative_triangle_relaxed:
  "bellmanFord_relaxed negative_triangle ''A'' False
     = \<lparr>graph_b = negative_triangle,
        distances_b = [(''A'', Num (- 30)), (''B'', Num (- 20)), (''C'', Num (- 25))],
        previous_b = [(''A'', Some ''C''), (''B'', Some ''A''), (''C'', Some ''B'')]\<rparr>"
  by (simp add: negative_triangle_def common_eval bellmanFord_eval)

lemma negative_triangle_links:
  "c \<in> {''A'', ''B'', ''C''} \<Longrightarrow>
   reconstruct [(''A'', Some ''C''), (''B'', Some ''A''), (''C'', Some ''B'')] (Some c) [] = None"
  by (rule reconstruct_cycle [where S = "{''A'', ''B'', ''C''}"]) (auto simp: or_null_def)

text \<open>
  C5. On the negative triangle with source \<open>A\<close>, the check after the two passes finds an
  edge that still relaxes, so \<open>hasNegativeCycle\<close> is set; the predecessor links then are
  \<open>A \<leftarrow> C \<leftarrow> B \<leftarrow> A\<close>, and the path reconstruction that follows never ends, whichever
  of the three nodes is the destination: no result is returned.
\<close>

theorem negative_triangle_never_returns:
  "list_ex (still_relaxes (distances_b (bellmanFord_relaxed negative_triangle ''A'' False)))
     (all_edges negative_triangle False) \<and>
   bellmanFord negative_triangle ''A'' ''A'' False = None \<and>
   bellmanFord negative_triangle ''A'' ''B'' False = None \<and>
   bellmanFord negative_triangle ''A'' ''C'' False = None"
proof (intro conjI)
  show "list_ex (still_relaxes (distances_b (bellmanFord_relaxed negative_triangle ''A'' False)))
     (all_edges negative_triangle False)"
    unfolding negative_triangle_relaxed
    by (simp add: negative_triangle_def all_edges_def edge_cost_b_def still_relaxes_def
        get_num_def road_def)
  show "bellmanFord negative_triangle ''A'' ''A'' False = None"
    by (simp add: bellmanFord_def bellmanFord_call_def Let_def negative_triangle_relaxed
        negative_triangle_links)
  show "bellmanFord negative_triangle ''A'' ''B'' False = None"
    by (simp add: bellmanFord_def bellmanFord_call_def Let_def negative_triangle_relaxed
        negative_triangle_links)
  show "bellmanFord negative_triangle ''A'' ''C'' False = None"
    by (simp add: bellmanFord_def bellmanFord_call_def Let_def negative_triangle_relaxed
        negative_triangle_links)
qed


lemma all_edges_inner:
  "concat (map (\<lambda>edge. case cost edge of None \<Rightarrow> []
                        | Some effectiveWeight \<Rightarrow> [(from, to_edge edge, effectiveWeight)]) es)
   = List.map_filter (\<lambda>edge. map_option (\<lambda>w. (from, to_edge edge, w)) (cost edge)) es"
  by (induction es) (auto simp: List.map_filter_simps split: option.splits)

subsection \<open>The three algorithms on the line graph\<close>

lemma sqrt_400: "sqrt 400 = 20"
  by (rule real_sqrt_unique) simp_all

lemma sqrt_100: "sqrt 100 = 10"
  by (rule real_sqrt_unique) simp_all

lemma line_graph_dijkstra:
  "dijkstra line_graph ''A'' ''D'' False
     = Some \<lparr>path = [''A'', ''B'', ''D''], distance = Num 20, visited = [''A'', ''B'', ''D'']\<rparr>"
  by (simp add: line_graph_def queue_eval common_eval dijkstra_eval)

lemma line_graph_aStar:
  "aStar line_graph ''A'' ''D'' False
     = Some \<lparr>path = [''A'', ''B'', ''D''], distance = Num 20, visited = [''A'', ''B'', ''D'']\<rparr>"
  by (simp add: line_graph_def queue_eval common_eval aStar_eval sqrt_400 sqrt_100)

lemma line_graph_bellmanFord:
  "bellmanFord line_graph ''A'' ''D'' False
     = Some \<lparr>path = [''A'', ''B'', ''D''], distance = Num 20, hasNegativeCycle = False\<rparr>"
  by (simp add: line_graph_def common_eval bellmanFord_eval)

lemma dijkstra_loop_graph: "graph_d (dijkstra_loop endId em st) = graph_d st"
  by (rule dijkstra_loop_rule [where I = "\<lambda>s. graph_d s = graph_d st"
        and Q = "\<lambda>s. graph_d s = graph_d st"]) simp_all

lemma aStar_loop_graph: "graph_a (aStar_loop endNode endId em st) = graph_a st"
  by (rule aStar_loop_rule [where I = "\<lambda>s. graph_a s = graph_a st"
        and Q = "\<lambda>s. graph_a s = graph_a st"]) simp_all

lemma relax_b_graph [simp]: "graph_b (relax_b e st) = graph_b st"
  by (simp add: relax_b_def Let_def split: prod.splits)

lemma fold_relax_b_graph [simp]: "graph_b (fold relax_b es st) = graph_b st"
  by (induction es arbitrary: st) simp_all

lemma relax_passes_graph [simp]: "graph_b (relax_passes n es st) = graph_b st"
  by (induction n arbitrary: st) simp_all

text \<open>
  C9. No call changes the graph it is given: the graph a call of any of the three
  algorithms leaves is the graph it was called with.
\<close>

theorem search_leaves_graph:
  "(dijkstra_call g s d em = Some (r, g') \<longrightarrow> g' = g) \<and>
   (aStar_call g s d em = Some (r, g') \<longrightarrow> g' = g) \<and>
   (bellmanFord_call g s d em = Some (rb, g') \<longrightarrow> g' = g)"
proof (intro conjI impI)
  assume "dijkstra_call g s d em = Some (r, g')"
  then show "g' = g"
    by (auto simp: dijkstra_call_def Let_def dijkstra_loop_graph dijkstra_init_def
        split: option.splits)
next
  assume "aStar_call g s d em = Some (r, g')"
  then show "g' = g"
    by (auto simp: aStar_call_def Let_def aStar_loop_graph aStar_init_def
        split: option.splits)
next
  assume "bellmanFord_call g s d em = Some (rb, g')"
  then show "g' = g"
    by (auto simp: bellmanFord_call_def Let_def bellmanFord_relaxed_def bellmanFord_init_def
        split: option.splits)
qed


theorem search_leaves_graph_witness:
  "map_option snd (dijkstra_call line_graph ''A'' ''D'' False) = Some line_graph \<and>
   map_option snd (aStar_call line_graph ''A'' ''D'' False) = Some line_graph \<and>
   map_option snd (bellmanFord_call line_graph ''A'' ''D'' False) = Some line_graph"
proof -
  obtain r1 g1 where 1: "dijkstra_call line_graph ''A'' ''D'' False = Some (r1, g1)"
    using line_graph_dijkstra by (auto simp: dijkstra_def)
  obtain r2 g2 where 2: "aStar_call line_graph ''A'' ''D'' False = Some (r2, g2)"
    using line_graph_aStar by (auto simp: aStar_def)
  obtain r3 g3 where 3: "bellmanFord_call line_graph ''A'' ''D'' False = Some (r3, g3)"
    using line_graph_bellmanFord by (auto simp: bellmanFord_def)
  from search_leaves_graph [of line_graph "''A''" "''D''" False r1 g1 r3] 1
  have "g1 = line_graph" by simp
  moreover from search_leaves_graph [of line_graph "''A''" "''D''" False r2 g2 r3] 2
  have "g2 = line_graph" by simp
  moreover from search_leaves_graph [of line_graph "''A''" "''D''" False r1 g3 r3] 3
  have "g3 = line_graph" by simp
  ultimately show ?thesis using 1 2 3 by simp
qed

definition trace_ok :: "string \<Rightarrow> string list \<Rightarrow> string entry list \<Rightarrow> bool" where
  "trace_ok s vis q =
     (distinct vis \<and> (if vis = [] then snd ` set q \<subseteq> {s} else hd vis = s))"

lemma trace_ok_stale:
  assumes "trace_ok s vis q" "q \<noteq> []" "dequeue q = (Some c, q')"
  shows "trace_ok s vis q'"
proof -
  from dequeue_set [OF assms(3,2)] have "snd ` set q' \<subseteq> snd ` set q" by auto
  with assms(1) show ?thesis unfolding trace_ok_def by (cases "vis = []") auto
qed

lemma trace_ok_visit:
  assumes "trace_ok s vis q" "q \<noteq> []" "dequeue q = (Some c, q')" "c \<notin> set vis"
  shows "trace_ok s (vis @ [c]) q''"
proof -
  from dequeue_cases [OF assms(3,2)] have c: "c = snd (q ! 0)" by simp
  from dequeue_set [OF assms(3,2)] have "q ! 0 \<in> set q" by simp
  with c have "c \<in> snd ` set q" by auto
  with assms(1,4) show ?thesis unfolding trace_ok_def by (cases "vis = []") auto
qed

lemma dijkstra_loop_trace:
  "trace_ok s (visited_d st) (pq_d st) \<Longrightarrow>
   trace_ok s (visited_d (dijkstra_loop endId em st)) (pq_d (dijkstra_loop endId em st))"
  by (rule dijkstra_loop_rule [where I = "\<lambda>st. trace_ok s (visited_d st) (pq_d st)"])
     (auto intro: trace_ok_stale trace_ok_visit)

lemma aStar_loop_trace:
  "trace_ok s (visited_a st) (pq_a st) \<Longrightarrow>
   trace_ok s (visited_a (aStar_loop endNode endId em st))
     (pq_a (aStar_loop endNode endId em st))"
  by (rule aStar_loop_rule [where I = "\<lambda>st. trace_ok s (visited_a st) (pq_a st)"])
     (auto intro: trace_ok_stale trace_ok_visit)

lemma enqueue_Nil [simp]: "enqueue v p [] = [(p, v)]"
  by (simp add: enqueue_def bubbleUp.simps)

text \<open>
  C10. The visited trace of Dijkstra and of A* holds every id at most once, and a trace
  that is not empty starts with the source id.
\<close>

theorem visited_trace_distinct_from_source:
  "(dijkstra g s d em = Some r \<longrightarrow>
      distinct (visited r) \<and> (visited r \<noteq> [] \<longrightarrow> hd (visited r) = s)) \<and>
   (aStar g s d em = Some r \<longrightarrow>
      distinct (visited r) \<and> (visited r \<noteq> [] \<longrightarrow> hd (visited r) = s))"
proof (intro conjI impI)
  have t: "trace_ok s (visited_d (dijkstra_loop d em (dijkstra_init g s)))
             (pq_d (dijkstra_loop d em (dijkstra_init g s)))"
    by (rule dijkstra_loop_trace) (simp add: trace_ok_def dijkstra_init_def)
  assume "dijkstra g s d em = Some r"
  then have v: "visited r = visited_d (dijkstra_loop d em (dijkstra_init g s))"
    by (auto simp: dijkstra_def dijkstra_call_def Let_def split: option.splits)
  from t v show "distinct (visited r)" by (simp add: trace_ok_def)
  assume "visited r \<noteq> []"
  with t v show "hd (visited r) = s" by (simp add: trace_ok_def)
next
  assume a: "aStar g s d em = Some r"
  show "distinct (visited r)" "visited r \<noteq> [] \<Longrightarrow> hd (visited r) = s"
  proof -
    consider (absent) "visited r = []"
      | (run) endNode where "visited r = visited_a (aStar_loop endNode d em (aStar_init g endNode s))"
      using a by (auto simp: aStar_def aStar_call_def Let_def split: option.splits)
    then have "distinct (visited r) \<and> (visited r \<noteq> [] \<longrightarrow> hd (visited r) = s)"
    proof cases
      case absent
      then show ?thesis by simp
    next
      case run
      have "trace_ok s (visited_a (aStar_loop endNode d em (aStar_init g endNode s)))
             (pq_a (aStar_loop endNode d em (aStar_init g endNode s)))"
        by (rule aStar_loop_trace) (simp add: trace_ok_def aStar_init_def Let_def)
      with run show ?thesis by (simp add: trace_ok_def)
    qed
    then show "distinct (visited r)" "visited r \<noteq> [] \<Longrightarrow> hd (visited r) = s" by simp_all
  qed
qed


theorem visited_trace_distinct_from_source_witness:
  "(\<exists>r. dijkstra line_graph ''A'' ''D'' False = Some r \<and> visited r = [''A'', ''B'', ''D''] \<and>
        distinct (visited r) \<and> hd (visited r) = ''A'') \<and>
   (\<exists>r. aStar line_graph ''A'' ''D'' False = Some r \<and> visited r = [''A'', ''B'', ''D''] \<and>
        distinct (visited r) \<and> hd (visited r) = ''A'')"
  using visited_trace_distinct_from_source [of line_graph "''A''" "''D''" False
          "\<lparr>path = [''A'', ''B'', ''D''], distance = Num 20, visited = [''A'', ''B'', ''D'']\<rparr>"]
        line_graph_dijkstra line_graph_aStar
  by simp


subsection \<open>Emergency mode and the cleared graph\<close>

text \<open>The graph with \<open>blocked = false\<close> and \<open>traffic = 0\<close> on every edge.\<close>

definition clear_edge :: "Edge \<Rightarrow> Edge" where
  "clear_edge edge = edge\<lparr>traffic := 0, blocked := False\<rparr>"

definition cleared :: "Graph \<Rightarrow> Graph" where
  "cleared graph = graph\<lparr>edges := map (\<lambda>(k, es). (k, map clear_edge es)) (edges graph)\<rparr>"

lemma nodes_cleared [simp]: "nodes (cleared g) = nodes g"
  by (simp add: cleared_def)

lemma edges_of_cleared: "edges_of (cleared g) c = map clear_edge (edges_of g c)"
  by (simp add: edges_of_def cleared_def map_of_map split: option.splits)

lemma relax_d_cleared:
  "relax_d False c (clear_edge e) (st\<lparr>graph_d := g'\<rparr>) = (relax_d True c e st)\<lparr>graph_d := g'\<rparr>"
  by (simp add: relax_d_def edge_cost_d_def clear_edge_def Let_def)

lemma fold_relax_d_cleared:
  "fold (relax_d False c) (map clear_edge es) (st\<lparr>graph_d := g'\<rparr>)
   = (fold (relax_d True c) es st)\<lparr>graph_d := g'\<rparr>"
  by (induction es arbitrary: st) (simp_all add: relax_d_cleared)

lemma dijkstra_loop_cleared:
  "dijkstra_loop endId False (st\<lparr>graph_d := cleared (graph_d st)\<rparr>)
   = (dijkstra_loop endId True st)\<lparr>graph_d := cleared (graph_d st)\<rparr>"
  by (rule dijkstra_loop_cong [where I = "\<lambda>s. graph_d s = graph_d st"])
     (simp_all add: edges_of_cleared fold_relax_d_cleared)

lemma dijkstra_init_cleared:
  "dijkstra_init (cleared g) s = (dijkstra_init g s)\<lparr>graph_d := cleared g\<rparr>"
  by (simp add: dijkstra_init_def init_distances_def init_previous_def)

lemma dijkstra_cleared: "dijkstra g s d True = dijkstra (cleared g) s d False"
proof -
  have "dijkstra_loop d False (dijkstra_init (cleared g) s)
        = (dijkstra_loop d True (dijkstra_init g s))\<lparr>graph_d := cleared g\<rparr>"
    using dijkstra_loop_cleared [of d "dijkstra_init g s"]
    by (simp add: dijkstra_init_cleared) (simp add: dijkstra_init_def)
  then show ?thesis
    by (simp add: dijkstra_def dijkstra_call_def Let_def split: option.splits)
qed

lemma relax_a_cleared:
  "nodes g' = nodes (graph_a st) \<Longrightarrow>
   relax_a en False c (clear_edge e) (st\<lparr>graph_a := g'\<rparr>)
   = (relax_a en True c e st)\<lparr>graph_a := g'\<rparr>"
  by (simp add: relax_a_def edge_cost_a_def clear_edge_def Let_def heuristic_def)

lemma fold_relax_a_cleared:
  "nodes g' = nodes (graph_a st) \<Longrightarrow>
   fold (relax_a en False c) (map clear_edge es) (st\<lparr>graph_a := g'\<rparr>)
   = (fold (relax_a en True c) es st)\<lparr>graph_a := g'\<rparr>"
  by (induction es arbitrary: st) (simp_all add: relax_a_cleared)

lemma aStar_loop_cleared:
  "aStar_loop en endId False (st\<lparr>graph_a := cleared (graph_a st)\<rparr>)
   = (aStar_loop en endId True st)\<lparr>graph_a := cleared (graph_a st)\<rparr>"
  by (rule aStar_loop_cong [where I = "\<lambda>s. graph_a s = graph_a st"])
     (simp_all add: edges_of_cleared fold_relax_a_cleared)

lemma heuristic_cleared [simp]: "heuristic (cleared g) = heuristic g"
  by (simp add: heuristic_def fun_eq_iff)

lemma aStar_init_cleared:
  "aStar_init (cleared g) en s = (aStar_init g en s)\<lparr>graph_a := cleared g\<rparr>"
  by (simp add: aStar_init_def init_distances_def init_previous_def init_fScore_def Let_def
      cong: if_cong)

lemma aStar_cleared: "aStar g s d True = aStar (cleared g) s d False"
proof -
  have "aStar_loop en d False (aStar_init (cleared g) en s)
        = (aStar_loop en d True (aStar_init g en s))\<lparr>graph_a := cleared g\<rparr>" for en
    using aStar_loop_cleared [of en d "aStar_init g en s"]
    by (simp add: aStar_init_cleared) (simp add: aStar_init_def Let_def)
  then show ?thesis
    by (simp add: aStar_def aStar_call_def Let_def split: option.splits)
qed

lemma edge_cost_b_cleared: "edge_cost_b False (clear_edge e) = edge_cost_b True e"
  by (simp add: edge_cost_b_def clear_edge_def)

lemma to_edge_clear_edge [simp]: "to_edge (clear_edge e) = to_edge e"
  by (simp add: clear_edge_def)

lemma all_edges_cleared: "all_edges (cleared g) False = all_edges g True"
  by (simp add: all_edges_def cleared_def edge_cost_b_cleared comp_def case_prod_unfold
      cong: option.case_cong)

lemma relax_b_regraph:
  "relax_b e (st\<lparr>graph_b := g'\<rparr>) = (relax_b e st)\<lparr>graph_b := g'\<rparr>"
  by (simp add: relax_b_def Let_def split: prod.splits)

lemma fold_relax_b_regraph:
  "fold relax_b es (st\<lparr>graph_b := g'\<rparr>) = (fold relax_b es st)\<lparr>graph_b := g'\<rparr>"
  by (induction es arbitrary: st) (simp_all add: relax_b_regraph)

lemma relax_passes_regraph:
  "relax_passes n es (st\<lparr>graph_b := g'\<rparr>) = (relax_passes n es st)\<lparr>graph_b := g'\<rparr>"
  by (induction n arbitrary: st) (simp_all add: fold_relax_b_regraph)

lemma bellmanFord_relaxed_cleared:
  "bellmanFord_relaxed (cleared g) s False
   = (bellmanFord_relaxed g s True)\<lparr>graph_b := cleared g\<rparr>"
proof -
  have "bellmanFord_init (cleared g) s = (bellmanFord_init g s)\<lparr>graph_b := cleared g\<rparr>"
    by (simp add: bellmanFord_init_def init_distances_def init_previous_def)
  then show ?thesis
    by (simp add: bellmanFord_relaxed_def Let_def all_edges_cleared relax_passes_regraph)
qed

lemma bellmanFord_cleared: "bellmanFord g s d True = bellmanFord (cleared g) s d False"
  by (simp add: bellmanFord_def bellmanFord_call_def Let_def bellmanFord_relaxed_cleared
      all_edges_cleared split: option.splits)





section \<open>The ids in the maps and in the returned path\<close>

lemma keys_update: "fst ` set (AList.update k v m) = insert k (fst ` set m)"
  by (simp add: dom_update)

lemma keys_fold_update:
  "fst ` set (fold (\<lambda>(k, _) m. AList.update k (f k) m) xs acc) = fst ` set acc \<union> fst ` set xs"
proof (induction xs arbitrary: acc)
  case Nil
  show ?case by simp
next
  case (Cons x xs)
  obtain a b where x: "x = (a, b)" by (cases x)
  have "fst ` set (fold (\<lambda>(k, _) m. AList.update k (f k) m) (x # xs) acc)
        = fst ` set (AList.update a (f a) acc) \<union> fst ` set xs"
    by (simp add: x Cons.IH)
  also have "\<dots> = fst ` set acc \<union> fst ` set (x # xs)"
    by (simp add: keys_update x)
  finally show ?case .
qed

lemma init_distances_keys [simp]: "fst ` set (init_distances g s) = fst ` set (nodes g)"
  unfolding init_distances_def by (simp add: keys_fold_update)

lemma init_previous_keys [simp]: "fst ` set (init_previous g) = fst ` set (nodes g)"
  unfolding init_previous_def using keys_fold_update [of "\<lambda>_. None" "nodes g" "[]"] by simp

text \<open>The ids that some predecessor link points to.\<close>

definition links :: "(string, string option) js_map \<Rightarrow> string set" where
  "links previous = {p. \<exists>k. map_of previous k = Some (Some p)}"

lemma links_update: "links (AList.update k (Some p) m) \<subseteq> insert p (links m)"
  by (auto simp: links_def update_conv' split: if_splits)

lemma map_of_fold_update_None:
  "map_of (fold (\<lambda>(k, _) m. AList.update k None m) xs acc) k = Some (Some p)
   \<Longrightarrow> map_of acc k = Some (Some p)"
proof (induction xs arbitrary: acc)
  case Nil
  then show ?case by simp
next
  case (Cons x xs)
  obtain a b where x: "x = (a, b)" by (cases x)
  from Cons.prems have "map_of (fold (\<lambda>(k, _) m. AList.update k None m) xs
                                  (AList.update a None acc)) k = Some (Some p)"
    by (simp add: x)
  from Cons.IH [OF this] show ?case
    by (simp add: update_conv' split: if_splits)
qed

lemma links_init_previous [simp]: "links (init_previous g) = {}"
proof -
  have "map_of (init_previous g) k \<noteq> Some (Some p)" for k p
    using map_of_fold_update_None [of "nodes g" "[]" k p] by (auto simp: init_previous_def)
  then show ?thesis by (simp add: links_def)
qed

lemma reconstruct_set:
  assumes "reconstruct prev cur pth = Some y"
  shows "set y \<subseteq> set pth \<union> set_option cur \<union> links prev"
proof (rule reconstruct.raw_induct [rotated, OF assms,
        where P = "\<lambda>p cur pt y. set y \<subseteq> set pt \<union> set_option cur \<union> links p"])
  fix f :: "(string, string option) js_map \<Rightarrow> string option \<Rightarrow> string list \<Rightarrow> string list option"
    and p cur pt y
  assume IH: "\<And>p cur pt y. f p cur pt = Some y \<Longrightarrow> set y \<subseteq> set pt \<union> set_option cur \<union> links p"
    and eq: "(case cur of None \<Rightarrow> Some pt
              | Some c \<Rightarrow> f p (or_null (map_of p c)) (c # pt)) = Some y"
  show "set y \<subseteq> set pt \<union> set_option cur \<union> links p"
  proof (cases cur)
    case None
    with eq show ?thesis by auto
  next
    case (Some c)
    with eq have "f p (or_null (map_of p c)) (c # pt) = Some y" by simp
    from IH [OF this] have "set y \<subseteq> set (c # pt) \<union> set_option (or_null (map_of p c)) \<union> links p" .
    moreover have "set_option (or_null (map_of p c)) \<subseteq> links p"
      by (auto simp: or_null_def links_def split: option.splits if_splits)
    ultimately show ?thesis using Some by auto
  qed
qed

lemma reconstruct_unlinked:
  "or_null (map_of prev d) = None \<Longrightarrow> reconstruct prev (Some d) pth = Some (d # pth)"
  by (subst reconstruct.simps, simp, subst reconstruct.simps, simp)

text \<open>
  The returned path holds the destination and linked ids only, and is empty when the
  destination has no entry in the predecessor map and is not the source.
\<close>

lemma path_from_reconstruct:
  assumes "reconstruct prev (Some d) [] = Some y" "z \<in> set (path_from s y)"
    and "z \<notin> links prev" "z \<noteq> s" "z \<notin> fst ` set prev"
  shows False
proof -
  from assms(2) have y: "path_from s y = y" "y \<noteq> []" "hd y = s"
    by (auto simp: path_from_def split: list.splits if_splits)
  from reconstruct_set [OF assms(1)] assms(2,3) y(1) have zd: "z = d" by auto
  with assms(5) have "map_of prev d = None" by (simp add: map_of_eq_None_iff)
  then have "reconstruct prev (Some d) [] = Some [d]"
    by (intro reconstruct_unlinked) (simp add: or_null_def)
  with assms(1) have "y = [d]" by simp
  with y(3) zd assms(4) show False by simp
qed

section \<open>Edges to ids that are no nodes\<close>

text \<open>
  An edge is dangling when its \<open>to\<close> id is not a key of the node map; the pruned graph
  is the graph without its dangling edges.
\<close>

lemma num_less_NaN [simp]: "num_less a NaN = False"
  by (cases a) simp_all

lemma get_num_absent: "k \<notin> fst ` set m \<Longrightarrow> get_num m k = NaN"
  by (simp add: get_num_def map_of_eq_None_iff [THEN iffD2])

definition dangling :: "Graph \<Rightarrow> Edge \<Rightarrow> bool" where
  "dangling graph edge = (to_edge edge \<notin> fst ` set (nodes graph))"

definition pruned :: "Graph \<Rightarrow> Graph" where
  "pruned graph =
     graph\<lparr>edges := map (\<lambda>(k, es). (k, filter (\<lambda>edge. \<not> dangling graph edge) es)) (edges graph)\<rparr>"

lemma nodes_pruned [simp]: "nodes (pruned g) = nodes g"
  by (simp add: pruned_def)

lemma edges_of_pruned:
  "edges_of (pruned g) c = filter (\<lambda>edge. \<not> dangling g edge) (edges_of g c)"
  by (simp add: edges_of_def pruned_def map_of_map split: option.splits)

lemma relax_d_dangling:
  "to_edge e \<notin> fst ` set (distances_d st) \<Longrightarrow> relax_d em c e st = st"
  by (simp add: relax_d_def Let_def get_num_absent split: option.splits)

lemma relax_d_regraph:
  "relax_d em c e (st\<lparr>graph_d := g'\<rparr>) = (relax_d em c e st)\<lparr>graph_d := g'\<rparr>"
  by (simp add: relax_d_def Let_def split: option.splits)

lemma fold_relax_d_pruned:
  "fst ` set (distances_d st) = fst ` set (nodes g) \<Longrightarrow>
   fold (relax_d em c) (filter (\<lambda>edge. \<not> dangling g edge) es) (st\<lparr>graph_d := g'\<rparr>)
   = (fold (relax_d em c) es st)\<lparr>graph_d := g'\<rparr>"
proof (induction es arbitrary: st)
  case Nil
  show ?case by simp
next
  case (Cons e es)
  show ?case
  proof (cases "dangling g e")
    case True
    then have "relax_d em c e st = st"
      using Cons.prems by (intro relax_d_dangling) (simp add: dangling_def)
    with True Cons show ?thesis by simp
  next
    case False
    have "fst ` set (distances_d (relax_d em c e st)) = fst ` set (nodes g)"
      using Cons.prems by simp
    from Cons.IH [OF this] False show ?thesis by (simp add: relax_d_regraph)
  qed
qed

lemma dijkstra_loop_pruned:
  assumes "fst ` set (distances_d st) = fst ` set (nodes (graph_d st))"
  shows "dijkstra_loop endId em (st\<lparr>graph_d := pruned (graph_d st)\<rparr>)
         = (dijkstra_loop endId em st)\<lparr>graph_d := pruned (graph_d st)\<rparr>"
  by (rule dijkstra_loop_cong
        [where I = "\<lambda>s. graph_d s = graph_d st
                        \<and> fst ` set (distances_d s) = fst ` set (nodes (graph_d st))"])
     (use assms in \<open>simp_all add: edges_of_pruned fold_relax_d_pruned\<close>)

lemma dijkstra_pruned: "dijkstra g s d em = dijkstra (pruned g) s d em"
proof -
  have "dijkstra_init (pruned g) s = (dijkstra_init g s)\<lparr>graph_d := pruned g\<rparr>"
    by (simp add: dijkstra_init_def init_distances_def init_previous_def)
  moreover have "dijkstra_loop d em ((dijkstra_init g s)\<lparr>graph_d := pruned g\<rparr>)
        = (dijkstra_loop d em (dijkstra_init g s))\<lparr>graph_d := pruned g\<rparr>"
    using dijkstra_loop_pruned [of "dijkstra_init g s" d em] by (simp add: dijkstra_init_def)
  ultimately show ?thesis
    by (simp add: dijkstra_def dijkstra_call_def Let_def split: option.splits)
qed

subsection \<open>Where the ids of a Dijkstra result come from\<close>

definition ids_ok_d :: "string set \<Rightarrow> string \<Rightarrow> dijkstra_state \<Rightarrow> bool" where
  "ids_ok_d K s st =
     (snd ` set (pq_d st) \<subseteq> insert s K \<and> set (visited_d st) \<subseteq> insert s K \<and>
      links (previous_d st) \<subseteq> set (visited_d st) \<and>
      fst ` set (distances_d st) = K \<and> fst ` set (previous_d st) = K)"

lemma relax_d_ids_ok:
  assumes "ids_ok_d K s st" "c \<in> set (visited_d st)"
  shows "ids_ok_d K s (relax_d em c e st)"
proof (cases "relax_d em c e st = st")
  case True
  with assms show ?thesis by simp
next
  case False
  then obtain w where
    lt: "num_less (num_add (get_num (distances_d st) c) (Num w)) (get_num (distances_d st) (to_edge e))"
    and r: "relax_d em c e st
            = st\<lparr>distances_d := AList.update (to_edge e) (num_add (get_num (distances_d st) c) (Num w))
                                    (distances_d st),
                  previous_d := AList.update (to_edge e) (Some c) (previous_d st),
                  pq_d := enqueue (to_edge e) (num_add (get_num (distances_d st) c) (Num w)) (pq_d st)\<rparr>"
    by (auto simp: relax_d_def Let_def split: option.splits if_splits)
  from get_num_less_key [OF lt] assms(1) have k: "to_edge e \<in> K" by (simp add: ids_ok_d_def)
  have "links (AList.update (to_edge e) (Some c) (previous_d st)) \<subseteq> set (visited_d st)"
    using links_update [of "to_edge e" c "previous_d st"] assms by (auto simp: ids_ok_d_def)
  with assms(1) k show ?thesis
    unfolding r by (auto simp: ids_ok_d_def set_enqueue keys_update)
qed

lemma fold_relax_d_ids_ok:
  "ids_ok_d K s st \<Longrightarrow> c \<in> set (visited_d st) \<Longrightarrow> ids_ok_d K s (fold (relax_d em c) es st)"
  by (induction es arbitrary: st) (simp_all add: relax_d_ids_ok)

lemma dequeue_value:
  assumes "q \<noteq> []" "dequeue q = (Some c, q')"
  shows "c \<in> snd ` set q" "set q' \<subseteq> set q"
proof -
  from dequeue_cases [OF assms(2,1)] have c: "c = snd (q ! 0)" by simp
  from dequeue_set [OF assms(2,1)] have s: "set q = insert (q ! 0) (set q')" .
  from c s show "c \<in> snd ` set q" by auto
  from s show "set q' \<subseteq> set q" by auto
qed

lemma dijkstra_loop_ids_ok:
  assumes "ids_ok_d K s st"
  shows "ids_ok_d K s (dijkstra_loop endId em st)"
proof (rule dijkstra_loop_rule [where I = "ids_ok_d K s" and Q = "ids_ok_d K s", OF assms])
  fix st c pq'
  assume a: "ids_ok_d K s st" "pq_d st \<noteq> []" "dequeue (pq_d st) = (Some c, pq')"
  from dequeue_value [OF a(2,3)] a(1)
  have c: "c \<in> insert s K" and q: "snd ` set pq' \<subseteq> insert s K"
    by (auto simp: ids_ok_d_def)
  from a(1) q show "ids_ok_d K s (st\<lparr>pq_d := pq'\<rparr>)" by (simp add: ids_ok_d_def)
  from a(1) q c have 1: "ids_ok_d K s (st\<lparr>pq_d := pq', visited_d := visited_d st @ [c]\<rparr>)"
    by (auto simp: ids_ok_d_def)
  then show "ids_ok_d K s (fold (relax_d em c) (edges_of (graph_d st) c)
                          (st\<lparr>pq_d := pq', visited_d := visited_d st @ [c]\<rparr>))"
    by (rule fold_relax_d_ids_ok) simp
next
  fix st pq'
  assume a: "ids_ok_d K s st" "pq_d st \<noteq> []" "dequeue (pq_d st) = (Some endId, pq')"
  from dequeue_value [OF a(2,3)] a(1)
  have c: "endId \<in> insert s K" and q: "snd ` set pq' \<subseteq> insert s K"
    by (auto simp: ids_ok_d_def)
  from a(1) q c show "ids_ok_d K s (st\<lparr>pq_d := pq', visited_d := visited_d st @ [endId]\<rparr>)"
    by (auto simp: ids_ok_d_def)
qed

lemma dijkstra_init_ids_ok: "ids_ok_d (fst ` set (nodes g)) s (dijkstra_init g s)"
  by (simp add: ids_ok_d_def dijkstra_init_def)

lemma dijkstra_result_ids:
  assumes "dijkstra g s d em = Some r" "z \<notin> fst ` set (nodes g)" "z \<noteq> s"
  shows "z \<notin> set (path r)" "z \<notin> set (visited r)"
proof -
  let ?st = "dijkstra_loop d em (dijkstra_init g s)"
  have ok: "ids_ok_d (fst ` set (nodes g)) s ?st"
    by (rule dijkstra_loop_ids_ok [OF dijkstra_init_ids_ok])
  from assms(1) obtain y where y: "reconstruct (previous_d ?st) (Some d) [] = Some y"
    and r: "path r = path_from s y" "visited r = visited_d ?st"
    by (auto simp: dijkstra_def dijkstra_call_def Let_def split: option.splits)
  from ok assms(2,3) show "z \<notin> set (visited r)" by (auto simp: r ids_ok_d_def)
  from ok assms(2,3) have "z \<notin> links (previous_d ?st)" "z \<notin> fst ` set (previous_d ?st)"
    by (auto simp: ids_ok_d_def)
  with path_from_reconstruct [OF y _ _ assms(3)] show "z \<notin> set (path r)"
    unfolding r by blast
qed

subsection \<open>A* on the pruned graph\<close>

lemma heuristic_pruned [simp]: "heuristic (pruned g) = heuristic g"
  by (simp add: heuristic_def fun_eq_iff)

lemma relax_a_dangling:
  "to_edge e \<notin> fst ` set (gScore st) \<Longrightarrow> relax_a en em c e st = st"
  by (simp add: relax_a_def Let_def get_num_absent split: option.splits)

lemma relax_a_regraph:
  "nodes g' = nodes (graph_a st) \<Longrightarrow>
   relax_a en em c e (st\<lparr>graph_a := g'\<rparr>) = (relax_a en em c e st)\<lparr>graph_a := g'\<rparr>"
  by (simp add: relax_a_def Let_def heuristic_def split: option.splits)

lemma fold_relax_a_pruned:
  "fst ` set (gScore st) = fst ` set (nodes g) \<Longrightarrow> nodes g' = nodes (graph_a st) \<Longrightarrow>
   fold (relax_a en em c) (filter (\<lambda>edge. \<not> dangling g edge) es) (st\<lparr>graph_a := g'\<rparr>)
   = (fold (relax_a en em c) es st)\<lparr>graph_a := g'\<rparr>"
proof (induction es arbitrary: st)
  case Nil
  show ?case by simp
next
  case (Cons e es)
  show ?case
  proof (cases "dangling g e")
    case True
    then have "relax_a en em c e st = st"
      using Cons.prems by (intro relax_a_dangling) (simp add: dangling_def)
    with True Cons show ?thesis by simp
  next
    case False
    have "fst ` set (gScore (relax_a en em c e st)) = fst ` set (nodes g)"
      and "nodes g' = nodes (graph_a (relax_a en em c e st))"
      using Cons.prems by simp_all
    from Cons.IH [OF this] False Cons.prems(2) show ?thesis by (simp add: relax_a_regraph)
  qed
qed

lemma aStar_loop_pruned:
  assumes "fst ` set (gScore st) = fst ` set (nodes (graph_a st))"
  shows "aStar_loop en endId em (st\<lparr>graph_a := pruned (graph_a st)\<rparr>)
         = (aStar_loop en endId em st)\<lparr>graph_a := pruned (graph_a st)\<rparr>"
  by (rule aStar_loop_cong
        [where I = "\<lambda>s. graph_a s = graph_a st
                        \<and> fst ` set (gScore s) = fst ` set (nodes (graph_a st))"])
     (use assms in \<open>simp_all add: edges_of_pruned fold_relax_a_pruned\<close>)

lemma aStar_pruned: "aStar g s d em = aStar (pruned g) s d em"
proof -
  have "aStar_init (pruned g) en s = (aStar_init g en s)\<lparr>graph_a := pruned g\<rparr>" for en
    by (simp add: aStar_init_def init_distances_def init_previous_def init_fScore_def Let_def
        cong: if_cong)
  moreover have "aStar_loop en d em ((aStar_init g en s)\<lparr>graph_a := pruned g\<rparr>)
        = (aStar_loop en d em (aStar_init g en s))\<lparr>graph_a := pruned g\<rparr>" for en
    using aStar_loop_pruned [of "aStar_init g en s" en d em] by (simp add: aStar_init_def Let_def)
  ultimately show ?thesis
    by (simp add: aStar_def aStar_call_def Let_def split: option.splits)
qed

definition ids_ok_a :: "string set \<Rightarrow> string \<Rightarrow> aStar_state \<Rightarrow> bool" where
  "ids_ok_a K s st =
     (snd ` set (pq_a st) \<subseteq> insert s K \<and> set (visited_a st) \<subseteq> insert s K \<and>
      links (previous_a st) \<subseteq> set (visited_a st) \<and>
      fst ` set (gScore st) = K \<and> fst ` set (previous_a st) = K)"

lemma relax_a_links:
  "links (previous_a (relax_a en em c e st)) \<subseteq> insert c (links (previous_a st))"
  using links_update [of "to_edge e" c "previous_a st"]
  by (auto simp: relax_a_def Let_def split: option.splits)

lemma relax_a_previous_keys:
  "fst ` set (previous_a st) = fst ` set (gScore st) \<Longrightarrow>
   fst ` set (previous_a (relax_a en em c e st)) = fst ` set (gScore st)"
  by (auto simp: relax_a_def Let_def keys_update split: option.splits dest: get_num_less_key)

lemma relax_a_ids_ok:
  assumes "ids_ok_a K s st" "c \<in> set (visited_a st)"
  shows "ids_ok_a K s (relax_a en em c e st)"
proof -
  have "snd ` set (pq_a (relax_a en em c e st)) \<subseteq> insert s K"
    using relax_a_queue [of en em c e st] assms(1) by (auto simp: ids_ok_a_def)
  moreover have "links (previous_a (relax_a en em c e st)) \<subseteq> set (visited_a st)"
    using relax_a_links [of en em c e st] assms by (auto simp: ids_ok_a_def)
  moreover have "fst ` set (previous_a (relax_a en em c e st)) = K"
    using relax_a_previous_keys [of st en em c e] assms(1) by (simp add: ids_ok_a_def)
  ultimately show ?thesis using assms(1) by (simp add: ids_ok_a_def)
qed

lemma fold_relax_a_ids_ok:
  "ids_ok_a K s st \<Longrightarrow> c \<in> set (visited_a st)
   \<Longrightarrow> ids_ok_a K s (fold (relax_a en em c) es st)"
  by (induction es arbitrary: st) (simp_all add: relax_a_ids_ok)

lemma aStar_loop_ids_ok:
  assumes "ids_ok_a K s st"
  shows "ids_ok_a K s (aStar_loop en endId em st)"
proof (rule aStar_loop_rule [where I = "ids_ok_a K s" and Q = "ids_ok_a K s", OF assms])
  fix st c pq'
  assume a: "ids_ok_a K s st" "pq_a st \<noteq> []" "dequeue (pq_a st) = (Some c, pq')"
  from dequeue_value [OF a(2,3)] a(1)
  have c: "c \<in> insert s K" and q: "snd ` set pq' \<subseteq> insert s K"
    by (auto simp: ids_ok_a_def)
  from a(1) q show "ids_ok_a K s (st\<lparr>pq_a := pq'\<rparr>)" by (simp add: ids_ok_a_def)
  from a(1) q c have 1: "ids_ok_a K s (st\<lparr>pq_a := pq', visited_a := visited_a st @ [c]\<rparr>)"
    by (auto simp: ids_ok_a_def)
  then show "ids_ok_a K s (fold (relax_a en em c) (edges_of (graph_a st) c)
                          (st\<lparr>pq_a := pq', visited_a := visited_a st @ [c]\<rparr>))"
    by (rule fold_relax_a_ids_ok) simp
next
  fix st pq'
  assume a: "ids_ok_a K s st" "pq_a st \<noteq> []" "dequeue (pq_a st) = (Some endId, pq')"
  from dequeue_value [OF a(2,3)] a(1)
  have c: "endId \<in> insert s K" and q: "snd ` set pq' \<subseteq> insert s K"
    by (auto simp: ids_ok_a_def)
  from a(1) q c show "ids_ok_a K s (st\<lparr>pq_a := pq', visited_a := visited_a st @ [endId]\<rparr>)"
    by (auto simp: ids_ok_a_def)
qed

lemma aStar_init_ids_ok: "ids_ok_a (fst ` set (nodes g)) s (aStar_init g en s)"
  by (simp add: ids_ok_a_def aStar_init_def Let_def)

lemma aStar_result_ids:
  assumes "aStar g s d em = Some r" "z \<notin> fst ` set (nodes g)"
  shows "z \<notin> set (path r)" "z \<notin> set (visited r)"
proof -
  consider (absent) "path r = []" "visited r = []"
    | (run) en y where "map_of (nodes g) s \<noteq> None"
        "reconstruct (previous_a (aStar_loop en d em (aStar_init g en s))) (Some d) [] = Some y"
        "path r = path_from s y" "visited r = visited_a (aStar_loop en d em (aStar_init g en s))"
    using assms(1) by (auto simp: aStar_def aStar_call_def Let_def split: option.splits)
  then have "z \<notin> set (path r) \<and> z \<notin> set (visited r)"
  proof cases
    case absent
    then show ?thesis by simp
  next
    case run
    let ?st = "aStar_loop en d em (aStar_init g en s)"
    from run(1) have "s \<in> fst ` set (nodes g)" by (simp add: map_of_eq_None_iff)
    with assms(2) have zs: "z \<noteq> s" by auto
    have ok: "ids_ok_a (fst ` set (nodes g)) s ?st"
      by (rule aStar_loop_ids_ok [OF aStar_init_ids_ok])
    from ok assms(2) zs have v: "z \<notin> set (visited r)" by (auto simp: run ids_ok_a_def)
    from ok assms(2) zs have "z \<notin> links (previous_a ?st)" "z \<notin> fst ` set (previous_a ?st)"
      by (auto simp: ids_ok_a_def)
    with path_from_reconstruct [OF run(2) _ _ zs] have "z \<notin> set (path r)"
      unfolding run by blast
    with v show ?thesis by simp
  qed
  then show "z \<notin> set (path r)" "z \<notin> set (visited r)" by simp_all
qed

subsection \<open>Bellman-Ford on the pruned graph\<close>

lemma all_edges_inner_pruned:
  "concat (map (\<lambda>edge. case cost edge of None \<Rightarrow> []
                        | Some w \<Rightarrow> [(from, to_edge edge, w)])
               (filter (\<lambda>edge. \<not> dangling g edge) es))
   = filter (\<lambda>(f, t, w). t \<in> fst ` set (nodes g))
       (concat (map (\<lambda>edge. case cost edge of None \<Rightarrow> []
                            | Some w \<Rightarrow> [(from, to_edge edge, w)]) es))"
  by (induction es) (auto simp: dangling_def split: option.splits)

lemma all_edges_pruned:
  "all_edges (pruned g) em = filter (\<lambda>(f, t, w). t \<in> fst ` set (nodes g)) (all_edges g em)"
proof -
  have "concat (map (\<lambda>(from, es). concat (map (\<lambda>edge. case edge_cost_b em edge of None \<Rightarrow> []
                        | Some w \<Rightarrow> [(from, to_edge edge, w)]) es))
                 (map (\<lambda>(k, es). (k, filter (\<lambda>edge. \<not> dangling g edge) es)) xs))
        = filter (\<lambda>(f, t, w). t \<in> fst ` set (nodes g))
            (concat (map (\<lambda>(from, es). concat (map (\<lambda>edge. case edge_cost_b em edge of None \<Rightarrow> []
                        | Some w \<Rightarrow> [(from, to_edge edge, w)]) es)) xs))" for xs
    by (induction xs) (auto simp: all_edges_inner_pruned)
  then show ?thesis by (simp add: all_edges_def pruned_def)
qed

lemma relax_b_dangling:
  "fst (snd e) \<notin> fst ` set (distances_b st) \<Longrightarrow> relax_b e st = st"
  by (cases e) (simp add: relax_b_def Let_def get_num_absent)

lemma relax_b_keys [simp]:
  "fst ` set (distances_b (relax_b e st)) = fst ` set (distances_b st)"
  by (cases e) (simp add: relax_b_def Let_def update_keys_present get_num_less_key)

lemma fold_relax_b_keys [simp]:
  "fst ` set (distances_b (fold relax_b es st)) = fst ` set (distances_b st)"
  by (induction es arbitrary: st) simp_all

lemma fold_relax_b_filter:
  "fold relax_b (filter (\<lambda>(f, t, w). t \<in> fst ` set (distances_b st)) es) st = fold relax_b es st"
proof (induction es arbitrary: st)
  case Nil
  show ?case by simp
next
  case (Cons e es)
  obtain f t w where e: "e = (f, t, w)" by (cases e)
  show ?case
  proof (cases "t \<in> fst ` set (distances_b st)")
    case True
    with Cons.IH [of "relax_b e st"] show ?thesis by (simp add: e)
  next
    case False
    then have "relax_b e st = st" by (intro relax_b_dangling) (simp add: e)
    with False Cons.IH [of st] show ?thesis by (simp add: e)
  qed
qed

lemma relax_passes_keys [simp]:
  "fst ` set (distances_b (relax_passes n es st)) = fst ` set (distances_b st)"
  by (induction n arbitrary: st) simp_all

lemma relax_passes_filter:
  "relax_passes n (filter (\<lambda>(f, t, w). t \<in> fst ` set (distances_b st)) es) st
   = relax_passes n es st"
proof (induction n arbitrary: st)
  case 0
  show ?case by simp
next
  case (Suc n)
  have "relax_passes n (filter (\<lambda>(f, t, w). t \<in> fst ` set (distances_b (fold relax_b es st))) es)
          (fold relax_b es st)
        = relax_passes n es (fold relax_b es st)"
    by (rule Suc.IH)
  then show ?case by (simp add: fold_relax_b_filter)
qed

lemma still_relaxes_filter:
  "list_ex (still_relaxes m) (filter (\<lambda>(f, t, w). t \<in> fst ` set m) es)
   = list_ex (still_relaxes m) es"
  by (induction es) (auto simp: still_relaxes_def dest: get_num_less_key)

lemma bellmanFord_pruned: "bellmanFord g s d em = bellmanFord (pruned g) s d em"
proof -
  let ?K = "fst ` set (nodes g)"
  have i: "bellmanFord_init (pruned g) s = (bellmanFord_init g s)\<lparr>graph_b := pruned g\<rparr>"
    by (simp add: bellmanFord_init_def init_distances_def init_previous_def)
  have k: "fst ` set (distances_b (bellmanFord_init g s)) = ?K"
    by (simp add: bellmanFord_init_def)
  have r: "bellmanFord_relaxed (pruned g) s em
           = (bellmanFord_relaxed g s em)\<lparr>graph_b := pruned g\<rparr>"
    using relax_passes_filter [of "length (nodes g) - 1" "bellmanFord_init g s" "all_edges g em"]
    by (simp add: bellmanFord_relaxed_def Let_def all_edges_pruned i relax_passes_regraph k)
  have k': "fst ` set (distances_b (bellmanFord_relaxed g s em)) = ?K"
    by (simp add: bellmanFord_relaxed_def Let_def k)
  show ?thesis
    using still_relaxes_filter [of "distances_b (bellmanFord_relaxed g s em)" "all_edges g em"]
    by (simp add: bellmanFord_def bellmanFord_call_def Let_def r all_edges_pruned k'
        split: option.splits)
qed

definition ids_ok_b :: "string set \<Rightarrow> bellmanFord_state \<Rightarrow> bool" where
  "ids_ok_b K st =
     (links (previous_b st) \<subseteq> K \<and> fst ` set (distances_b st) = K \<and>
      fst ` set (previous_b st) = K)"

lemma num_less_add_key:
  "num_less (num_add (get_num m k) b) c \<Longrightarrow> k \<in> fst ` set m"
  by (rule ccontr) (simp add: get_num_absent)

lemma relax_b_ids_ok:
  assumes "ids_ok_b K st"
  shows "ids_ok_b K (relax_b e st)"
proof -
  obtain f t w where e: "e = (f, t, w)" by (cases e)
  show ?thesis
  proof (cases "num_less (num_add (get_num (distances_b st) f) (Num w)) (get_num (distances_b st) t)")
    case True
    from num_less_add_key [OF True] get_num_less_key [OF True] assms
    have "f \<in> K" "t \<in> K" by (simp_all add: ids_ok_b_def)
    with links_update [of t f "previous_b st"] assms True show ?thesis
      by (auto simp: ids_ok_b_def relax_b_def e Let_def keys_update)
  next
    case False
    with assms show ?thesis by (simp add: relax_b_def e)
  qed
qed

lemma fold_relax_b_ids_ok: "ids_ok_b K st \<Longrightarrow> ids_ok_b K (fold relax_b es st)"
  by (induction es arbitrary: st) (simp_all add: relax_b_ids_ok)

lemma relax_passes_ids_ok: "ids_ok_b K st \<Longrightarrow> ids_ok_b K (relax_passes n es st)"
  by (induction n arbitrary: st) (simp_all add: fold_relax_b_ids_ok)

lemma bellmanFord_result_ids:
  assumes "bellmanFord g s d em = Some r" "z \<notin> fst ` set (nodes g)" "z \<noteq> s"
  shows "z \<notin> set (path r)"
proof -
  let ?st = "bellmanFord_relaxed g s em"
  have "ids_ok_b (fst ` set (nodes g)) (bellmanFord_init g s)"
    by (simp add: ids_ok_b_def bellmanFord_init_def)
  then have ok: "ids_ok_b (fst ` set (nodes g)) ?st"
    unfolding bellmanFord_relaxed_def Let_def by (rule relax_passes_ids_ok)
  from assms(1) obtain y where y: "reconstruct (previous_b ?st) (Some d) [] = Some y"
    and r: "path r = path_from s y"
    by (auto simp: bellmanFord_def bellmanFord_call_def Let_def split: option.splits)
  from ok assms(2) have "z \<notin> links (previous_b ?st)" "z \<notin> fst ` set (previous_b ?st)"
    by (auto simp: ids_ok_b_def)
  with path_from_reconstruct [OF y _ _ assms(3)] show "z \<notin> set (path r)"
    unfolding r by blast
qed

text \<open>
  An edge to an id that is no node is skipped: relaxing it changes none of the variables,
  and each algorithm returns on a graph exactly what it returns on the pruned graph (and
  returns nothing on the one when it returns nothing on the other). The id of such an edge
  is in no result of A*, and in the path or the trace of a result of Dijkstra's algorithm,
  or in the path of a result of Bellman-Ford, only when it is the source id of the call.
\<close>

lemma dangling_edges_are_skipped:
  "dijkstra g s d em = dijkstra (pruned g) s d em \<and>
   aStar g s d em = aStar (pruned g) s d em \<and>
   bellmanFord g s d em = bellmanFord (pruned g) s d em \<and>
   (dangling g e \<and> fst ` set (distances_d sd) = fst ` set (nodes g)
      \<longrightarrow> relax_d em c e sd = sd) \<and>
   (dangling g e \<and> fst ` set (gScore sa) = fst ` set (nodes g)
      \<longrightarrow> relax_a en em c e sa = sa) \<and>
   (dangling g e \<and> fst ` set (distances_b sb) = fst ` set (nodes g)
      \<longrightarrow> relax_b (c, to_edge e, w) sb = sb) \<and>
   (z \<notin> fst ` set (nodes g) \<and> z \<noteq> s \<longrightarrow>
      (dijkstra g s d em = Some r \<longrightarrow> z \<notin> set (path r) \<and> z \<notin> set (visited r)) \<and>
      (bellmanFord g s d em = Some rb \<longrightarrow> z \<notin> set (path rb))) \<and>
   (z \<notin> fst ` set (nodes g) \<longrightarrow>
      (aStar g s d em = Some r \<longrightarrow> z \<notin> set (path r) \<and> z \<notin> set (visited r)))"
proof (intro conjI impI)
  show "dijkstra g s d em = dijkstra (pruned g) s d em" by (rule dijkstra_pruned)
  show "aStar g s d em = aStar (pruned g) s d em" by (rule aStar_pruned)
  show "bellmanFord g s d em = bellmanFord (pruned g) s d em" by (rule bellmanFord_pruned)
  show "relax_d em c e sd = sd"
    if "dangling g e \<and> fst ` set (distances_d sd) = fst ` set (nodes g)"
    using that by (intro relax_d_dangling) (simp add: dangling_def)
  show "relax_a en em c e sa = sa"
    if "dangling g e \<and> fst ` set (gScore sa) = fst ` set (nodes g)"
    using that by (intro relax_a_dangling) (simp add: dangling_def)
  show "relax_b (c, to_edge e, w) sb = sb"
    if "dangling g e \<and> fst ` set (distances_b sb) = fst ` set (nodes g)"
    using that by (intro relax_b_dangling) (simp add: dangling_def)
next
  assume z: "z \<notin> fst ` set (nodes g) \<and> z \<noteq> s"
  show "z \<notin> set (path r)" "z \<notin> set (visited r)" if "dijkstra g s d em = Some r"
    using dijkstra_result_ids [OF that] z by simp_all
  show "z \<notin> set (path rb)" if "bellmanFord g s d em = Some rb"
    using bellmanFord_result_ids [OF that] z by simp
next
  assume z: "z \<notin> fst ` set (nodes g)" and a: "aStar g s d em = Some r"
  show "z \<notin> set (path r)" "z \<notin> set (visited r)"
    using aStar_result_ids [OF a z] by simp_all
qed

lemma dangling_line_graph_dijkstra:
  "dijkstra dangling_line_graph ''A'' ''D'' False
     = Some \<lparr>path = [''A'', ''B'', ''D''], distance = Num 20, visited = [''A'', ''B'', ''D'']\<rparr>"
  by (simp add: dangling_line_graph_def line_graph_def queue_eval common_eval dijkstra_eval)

lemma dangling_line_graph_skipped:
  "dangling dangling_line_graph (road ''A'' ''Z'' 1) \<and>
   relax_d False ''A'' (road ''A'' ''Z'' 1) (dijkstra_init dangling_line_graph ''A'')
     = dijkstra_init dangling_line_graph ''A'' \<and>
   dijkstra dangling_line_graph ''A'' ''D'' False
     = Some \<lparr>path = [''A'', ''B'', ''D''], distance = Num 20, visited = [''A'', ''B'', ''D'']\<rparr> \<and>
   dijkstra (pruned dangling_line_graph) ''A'' ''D'' False
     = Some \<lparr>path = [''A'', ''B'', ''D''], distance = Num 20, visited = [''A'', ''B'', ''D'']\<rparr> \<and>
   ''Z'' \<notin> set [''A'', ''B'', ''D'']"
proof -
  have d: "dangling dangling_line_graph (road ''A'' ''Z'' 1)"
    by (simp add: dangling_def dangling_line_graph_def line_graph_def road_def)
  have k: "fst ` set (distances_d (dijkstra_init dangling_line_graph ''A''))
           = fst ` set (nodes dangling_line_graph)"
    by (simp add: dijkstra_init_def)
  have z: "''Z'' \<notin> fst ` set (nodes dangling_line_graph) \<and> ''Z'' \<noteq> ''A''"
    by (simp add: dangling_line_graph_def line_graph_def)
  from dangling_edges_are_skipped
         [of dangling_line_graph "''A''" "''D''" False "road ''A'' ''Z'' 1"
             "dijkstra_init dangling_line_graph ''A''" "''A''" _ _ _ _ "''Z''"
             "\<lparr>path = [''A'', ''B'', ''D''], distance = Num 20, visited = [''A'', ''B'', ''D'']\<rparr>"]
       d k z dangling_line_graph_dijkstra
  show ?thesis by simp
qed

text \<open>
  C8. The id of a dangling edge can appear in a result. On the line graph with the edge
  from \<open>A\<close> to \<open>Z\<close>, where \<open>Z\<close> is no node, a query with source \<open>Z\<close> makes
  Dijkstra's algorithm visit \<open>Z\<close>: its trace is \<open>[Z]\<close>, and with \<open>Z\<close> as the destination
  too its path and the path of Bellman-Ford are \<open>[Z]\<close>. A*, which checks both ids
  first, returns the unreachable result with an empty path and an empty trace.
\<close>

theorem dangling_id_in_trace:
  "dangling dangling_line_graph (road ''A'' ''Z'' 1) \<and>
   dijkstra dangling_line_graph ''Z'' ''A'' False
     = Some \<lparr>path = [], distance = Infinity, visited = [''Z'']\<rparr> \<and>
   dijkstra dangling_line_graph ''Z'' ''Z'' False
     = Some \<lparr>path = [''Z''], distance = Infinity, visited = [''Z'']\<rparr> \<and>
   bellmanFord dangling_line_graph ''Z'' ''Z'' False
     = Some \<lparr>path = [''Z''], distance = Infinity, hasNegativeCycle = False\<rparr> \<and>
   aStar dangling_line_graph ''Z'' ''Z'' False
     = Some \<lparr>path = [], distance = Infinity, visited = []\<rparr>"
proof (intro conjI)
  show "dangling dangling_line_graph (road ''A'' ''Z'' 1)"
    by (simp add: dangling_def dangling_line_graph_def line_graph_def road_def)
  show "dijkstra dangling_line_graph ''Z'' ''A'' False
     = Some \<lparr>path = [], distance = Infinity, visited = [''Z'']\<rparr>"
    by (simp add: dangling_line_graph_def line_graph_def queue_eval common_eval dijkstra_eval)
  show "dijkstra dangling_line_graph ''Z'' ''Z'' False
     = Some \<lparr>path = [''Z''], distance = Infinity, visited = [''Z'']\<rparr>"
    by (simp add: dangling_line_graph_def line_graph_def queue_eval common_eval dijkstra_eval)
  show "bellmanFord dangling_line_graph ''Z'' ''Z'' False
     = Some \<lparr>path = [''Z''], distance = Infinity, hasNegativeCycle = False\<rparr>"
    by (simp add: dangling_line_graph_def line_graph_def common_eval bellmanFord_eval)
  show "aStar dangling_line_graph ''Z'' ''Z'' False
     = Some \<lparr>path = [], distance = Infinity, visited = []\<rparr>"
    by (simp add: dangling_line_graph_def line_graph_def aStar_def aStar_call_def)
qed

section \<open>Closed roads in a normal call, flags in an emergency call\<close>

text \<open>The graph without its blocked edges.\<close>

definition open_only :: "Graph \<Rightarrow> Graph" where
  "open_only graph =
     graph\<lparr>edges := map (\<lambda>(k, es). (k, filter (\<lambda>edge. \<not> blocked edge) es)) (edges graph)\<rparr>"

lemma nodes_open_only [simp]: "nodes (open_only g) = nodes g"
  by (simp add: open_only_def)

lemma edges_of_open_only:
  "edges_of (open_only g) c = filter (\<lambda>edge. \<not> blocked edge) (edges_of g c)"
  by (simp add: edges_of_def open_only_def map_of_map split: option.splits)

lemma relax_d_blocked: "blocked e \<Longrightarrow> relax_d False c e st = st"
  by (simp add: relax_d_def edge_cost_d_def)

lemma fold_relax_d_open:
  "fold (relax_d False c) (filter (\<lambda>edge. \<not> blocked edge) es) (st\<lparr>graph_d := g'\<rparr>)
   = (fold (relax_d False c) es st)\<lparr>graph_d := g'\<rparr>"
  by (induction es arbitrary: st) (simp_all add: relax_d_blocked relax_d_regraph)

lemma dijkstra_loop_open:
  "dijkstra_loop endId False (st\<lparr>graph_d := open_only (graph_d st)\<rparr>)
   = (dijkstra_loop endId False st)\<lparr>graph_d := open_only (graph_d st)\<rparr>"
  by (rule dijkstra_loop_cong [where I = "\<lambda>s. graph_d s = graph_d st"])
     (simp_all add: edges_of_open_only fold_relax_d_open)

lemma dijkstra_open: "dijkstra g s d False = dijkstra (open_only g) s d False"
proof -
  have "dijkstra_init (open_only g) s = (dijkstra_init g s)\<lparr>graph_d := open_only g\<rparr>"
    by (simp add: dijkstra_init_def init_distances_def init_previous_def)
  moreover have "dijkstra_loop d False ((dijkstra_init g s)\<lparr>graph_d := open_only g\<rparr>)
        = (dijkstra_loop d False (dijkstra_init g s))\<lparr>graph_d := open_only g\<rparr>"
    using dijkstra_loop_open [of d "dijkstra_init g s"] by (simp add: dijkstra_init_def)
  ultimately show ?thesis
    by (simp add: dijkstra_def dijkstra_call_def Let_def split: option.splits)
qed

lemma relax_a_blocked: "blocked e \<Longrightarrow> relax_a en False c e st = st"
  by (simp add: relax_a_def edge_cost_a_def)

lemma fold_relax_a_open:
  "nodes g' = nodes (graph_a st) \<Longrightarrow>
   fold (relax_a en False c) (filter (\<lambda>edge. \<not> blocked edge) es) (st\<lparr>graph_a := g'\<rparr>)
   = (fold (relax_a en False c) es st)\<lparr>graph_a := g'\<rparr>"
  by (induction es arbitrary: st) (simp_all add: relax_a_blocked relax_a_regraph)

lemma aStar_loop_open:
  "aStar_loop en endId False (st\<lparr>graph_a := open_only (graph_a st)\<rparr>)
   = (aStar_loop en endId False st)\<lparr>graph_a := open_only (graph_a st)\<rparr>"
  by (rule aStar_loop_cong [where I = "\<lambda>s. graph_a s = graph_a st"])
     (simp_all add: edges_of_open_only fold_relax_a_open)

lemma aStar_open: "aStar g s d False = aStar (open_only g) s d False"
proof -
  have "aStar_init (open_only g) en s = (aStar_init g en s)\<lparr>graph_a := open_only g\<rparr>" for en
    by (simp add: aStar_init_def init_distances_def init_previous_def init_fScore_def Let_def
        heuristic_def cong: if_cong)
  moreover have "aStar_loop en d False ((aStar_init g en s)\<lparr>graph_a := open_only g\<rparr>)
        = (aStar_loop en d False (aStar_init g en s))\<lparr>graph_a := open_only g\<rparr>" for en
    using aStar_loop_open [of en d "aStar_init g en s"] by (simp add: aStar_init_def Let_def)
  ultimately show ?thesis
    by (simp add: aStar_def aStar_call_def Let_def split: option.splits)
qed

lemma all_edges_open: "all_edges (open_only g) False = all_edges g False"
proof -
  have inner: "concat (map (\<lambda>edge. case edge_cost_b False edge of None \<Rightarrow> []
                        | Some w \<Rightarrow> [(fr, to_edge edge, w)])
                 (filter (\<lambda>edge. \<not> blocked edge) es))
        = concat (map (\<lambda>edge. case edge_cost_b False edge of None \<Rightarrow> []
                        | Some w \<Rightarrow> [(fr, to_edge edge, w)]) es)" for fr es
    by (induction es) (simp_all add: edge_cost_b_def)
  have "concat (map (\<lambda>(from, es). concat (map (\<lambda>edge. case edge_cost_b False edge of None \<Rightarrow> []
                        | Some w \<Rightarrow> [(from, to_edge edge, w)]) es))
                 (map (\<lambda>(k, es). (k, filter (\<lambda>edge. \<not> blocked edge) es)) xs))
        = concat (map (\<lambda>(from, es). concat (map (\<lambda>edge. case edge_cost_b False edge of None \<Rightarrow> []
                        | Some w \<Rightarrow> [(from, to_edge edge, w)]) es)) xs)" for xs
    by (induction xs) (auto simp: inner)
  then show ?thesis by (simp add: all_edges_def open_only_def)
qed

lemma bellmanFord_open: "bellmanFord g s d False = bellmanFord (open_only g) s d False"
proof -
  have "bellmanFord_init (open_only g) s = (bellmanFord_init g s)\<lparr>graph_b := open_only g\<rparr>"
    by (simp add: bellmanFord_init_def init_distances_def init_previous_def)
  then have "bellmanFord_relaxed (open_only g) s False
        = (bellmanFord_relaxed g s False)\<lparr>graph_b := open_only g\<rparr>"
    by (simp add: bellmanFord_relaxed_def Let_def all_edges_open relax_passes_regraph)
  then show ?thesis
    by (simp add: bellmanFord_def bellmanFord_call_def Let_def all_edges_open
        split: option.splits)
qed

lemma cleared_cleared [simp]: "cleared (cleared g) = cleared g"
  by (simp add: cleared_def clear_edge_def comp_def case_prod_unfold)

lemma dijkstra_cleared_emergency: "dijkstra g s d True = dijkstra (cleared g) s d True"
  using dijkstra_cleared [of g s d] dijkstra_cleared [of "cleared g" s d] by simp

lemma aStar_cleared_emergency: "aStar g s d True = aStar (cleared g) s d True"
  using aStar_cleared [of g s d] aStar_cleared [of "cleared g" s d] by simp

lemma bellmanFord_cleared_emergency: "bellmanFord g s d True = bellmanFord (cleared g) s d True"
  using bellmanFord_cleared [of g s d] bellmanFord_cleared [of "cleared g" s d] by simp

text \<open>
  C4. The three algorithms apply one cost rule in relaxation, the rule of the
  specification. Relaxing an edge in Dijkstra's algorithm and in A* does nothing when the
  rule gives the edge no cost (blocked, in a normal call) and otherwise offers the
  neighbour the distance of the current node plus the effective weight of the rule;
  Bellman-Ford relaxes the entries of its flat list, which holds, in order, exactly the
  edges with a cost, at that cost. So a normal call returns what it returns on the graph
  without its blocked edges, and an emergency call what it returns on the cleared graph.
\<close>

theorem one_cost_rule:
  "edge_cost_d em e = effective_weight e em \<and>
   edge_cost_a em e = effective_weight e em \<and>
   edge_cost_b em e = effective_weight e em \<and>
   relax_d em cur e sd =
     (case effective_weight e em of
        None \<Rightarrow> sd
      | Some w \<Rightarrow>
          (let t = num_add (get_num (distances_d sd) cur) (Num w) in
           if num_less t (get_num (distances_d sd) (to_edge e))
           then sd\<lparr>distances_d := AList.update (to_edge e) t (distances_d sd),
                   previous_d := AList.update (to_edge e) (Some cur) (previous_d sd),
                   pq_d := enqueue (to_edge e) t (pq_d sd)\<rparr>
           else sd)) \<and>
   relax_a endNode em cur e sa =
     (case effective_weight e em of
        None \<Rightarrow> sa
      | Some w \<Rightarrow>
          (let t = num_add (get_num (gScore sa) cur) (Num w);
               f = num_add t (heuristic (graph_a sa) endNode (to_edge e)) in
           if num_less t (get_num (gScore sa) (to_edge e))
           then sa\<lparr>previous_a := AList.update (to_edge e) (Some cur) (previous_a sa),
                   gScore := AList.update (to_edge e) t (gScore sa),
                   fScore := AList.update (to_edge e) f (fScore sa),
                   pq_a := enqueue (to_edge e) f (pq_a sa)\<rparr>
           else sa)) \<and>
   all_edges g em =
     concat (map (\<lambda>(from, es).
                    List.map_filter
                      (\<lambda>edge. map_option (\<lambda>w. (from, to_edge edge, w)) (effective_weight edge em))
                      es)
                 (edges g)) \<and>
   relax_b (cur, v, w) sb =
     (let t = num_add (get_num (distances_b sb) cur) (Num w) in
      if num_less t (get_num (distances_b sb) v)
      then sb\<lparr>distances_b := AList.update v t (distances_b sb),
              previous_b := AList.update v (Some cur) (previous_b sb)\<rparr>
      else sb) \<and>
   bellmanFord_relaxed g s em =
     relax_passes (length (nodes g) - 1)
       (concat (map (\<lambda>(from, es).
                       List.map_filter
                         (\<lambda>edge. map_option (\<lambda>w. (from, to_edge edge, w)) (effective_weight edge em))
                         es)
                    (edges g)))
       (bellmanFord_init g s) \<and>
   dijkstra g s d False = dijkstra (open_only g) s d False \<and>
   aStar g s d False = aStar (open_only g) s d False \<and>
   bellmanFord g s d False = bellmanFord (open_only g) s d False \<and>
   dijkstra g s d True = dijkstra (cleared g) s d True \<and>
   aStar g s d True = aStar (cleared g) s d True \<and>
   bellmanFord g s d True = bellmanFord (cleared g) s d True"
proof -
  have d: "edge_cost_d em e = effective_weight e em" for e
    by (simp add: edge_cost_d_def effective_weight_def)
  have a: "edge_cost_a em e = effective_weight e em" for e
    by (simp add: edge_cost_a_def effective_weight_def)
  have b: "edge_cost_b em e = effective_weight e em" for e
    by (auto simp: edge_cost_b_def effective_weight_def)
  have rd: "relax_d em cur e sd =
     (case effective_weight e em of
        None \<Rightarrow> sd
      | Some w \<Rightarrow>
          (let t = num_add (get_num (distances_d sd) cur) (Num w) in
           if num_less t (get_num (distances_d sd) (to_edge e))
           then sd\<lparr>distances_d := AList.update (to_edge e) t (distances_d sd),
                   previous_d := AList.update (to_edge e) (Some cur) (previous_d sd),
                   pq_d := enqueue (to_edge e) t (pq_d sd)\<rparr>
           else sd))"
    by (simp add: relax_d_def d Let_def split: option.splits)
  have ra: "relax_a endNode em cur e sa =
     (case effective_weight e em of
        None \<Rightarrow> sa
      | Some w \<Rightarrow>
          (let t = num_add (get_num (gScore sa) cur) (Num w);
               f = num_add t (heuristic (graph_a sa) endNode (to_edge e)) in
           if num_less t (get_num (gScore sa) (to_edge e))
           then sa\<lparr>previous_a := AList.update (to_edge e) (Some cur) (previous_a sa),
                   gScore := AList.update (to_edge e) t (gScore sa),
                   fScore := AList.update (to_edge e) f (fScore sa),
                   pq_a := enqueue (to_edge e) f (pq_a sa)\<rparr>
           else sa))"
    by (simp add: relax_a_def a Let_def get_num_def update_conv' split: option.splits)
  have ae: "all_edges g em =
     concat (map (\<lambda>(from, es).
                    List.map_filter
                      (\<lambda>edge. map_option (\<lambda>w. (from, to_edge edge, w)) (effective_weight edge em))
                      es)
                 (edges g))"
    by (simp add: all_edges_def all_edges_inner b)
  have rb: "relax_b (cur, v, w) sb =
     (let t = num_add (get_num (distances_b sb) cur) (Num w) in
      if num_less t (get_num (distances_b sb) v)
      then sb\<lparr>distances_b := AList.update v t (distances_b sb),
              previous_b := AList.update v (Some cur) (previous_b sb)\<rparr>
      else sb)"
    by (simp add: relax_b_def)
  have br: "bellmanFord_relaxed g s em =
     relax_passes (length (nodes g) - 1)
       (concat (map (\<lambda>(from, es).
                       List.map_filter
                         (\<lambda>edge. map_option (\<lambda>w. (from, to_edge edge, w)) (effective_weight edge em))
                         es)
                    (edges g)))
       (bellmanFord_init g s)"
    by (simp add: bellmanFord_relaxed_def ae [symmetric])
  from d a b rd ra ae rb br show ?thesis
    by (intro conjI dijkstra_open aStar_open bellmanFord_open dijkstra_cleared_emergency
          aStar_cleared_emergency bellmanFord_cleared_emergency)
qed

theorem one_cost_rule_witness:
  "relax_d False ''A'' busy_road (dijkstra_init busy_graph ''A'')
     = \<lparr>graph_d = busy_graph, distances_d = [(''A'', Num 0), (''B'', Num 20)],
        previous_d = [(''A'', None), (''B'', Some ''A'')], visited_d = [],
        pq_d = [(Num 0, ''A''), (Num 20, ''B'')]\<rparr> \<and>
   relax_d True ''A'' closed_road (dijkstra_init busy_graph ''A'')
     = \<lparr>graph_d = busy_graph, distances_d = [(''A'', Num 0), (''B'', Num 10)],
        previous_d = [(''A'', None), (''B'', Some ''A'')], visited_d = [],
        pq_d = [(Num 0, ''A''), (Num 10, ''B'')]\<rparr> \<and>
   relax_d False ''A'' closed_road (dijkstra_init busy_graph ''A'')
     = dijkstra_init busy_graph ''A'' \<and>
   gScore (relax_a (node_at ''B'' 0 0) False ''A'' busy_road
             (aStar_init busy_graph (node_at ''B'' 0 0) ''A''))
     = [(''A'', Num 0), (''B'', Num 20)] \<and>
   relax_a (node_at ''B'' 0 0) False ''A'' closed_road
             (aStar_init busy_graph (node_at ''B'' 0 0) ''A'')
     = aStar_init busy_graph (node_at ''B'' 0 0) ''A'' \<and>
   all_edges busy_graph False = [(''A'', ''B'', 20)] \<and>
   all_edges busy_graph True = [(''A'', ''B'', 10), (''A'', ''B'', 10)] \<and>
   distances_b (relax_b (''A'', ''B'', 20) (bellmanFord_init busy_graph ''A''))
     = [(''A'', Num 0), (''B'', Num 20)] \<and>
   map_option distance (dijkstra busy_graph ''A'' ''B'' False) = Some (Num 20) \<and>
   map_option distance (aStar busy_graph ''A'' ''B'' False) = Some (Num 20) \<and>
   map_option distance (bellmanFord busy_graph ''A'' ''B'' False) = Some (Num 20) \<and>
   map_option distance (dijkstra busy_graph ''A'' ''B'' True) = Some (Num 10) \<and>
   map_option distance (aStar busy_graph ''A'' ''B'' True) = Some (Num 10) \<and>
   map_option distance (bellmanFord busy_graph ''A'' ''B'' True) = Some (Num 10)"
proof -
  note r = one_cost_rule [where g = busy_graph and s = "''A''" and cur = "''A''"
      and sd = "dijkstra_init busy_graph ''A''" and endNode = "node_at ''B'' 0 0"
      and sa = "aStar_init busy_graph (node_at ''B'' 0 0) ''A''"
      and sb = "bellmanFord_init busy_graph ''A''" and v = "''B''" and w = 20]
  note ev = effective_weight_def closed_road_def busy_road_def busy_graph_def
    List.map_filter_simps queue_eval common_eval
  have 1: "relax_d False ''A'' busy_road (dijkstra_init busy_graph ''A'')
     = \<lparr>graph_d = busy_graph, distances_d = [(''A'', Num 0), (''B'', Num 20)],
        previous_d = [(''A'', None), (''B'', Some ''A'')], visited_d = [],
        pq_d = [(Num 0, ''A''), (Num 20, ''B'')]\<rparr>"
    using r [where em = False and e = busy_road] by (simp add: ev dijkstra_init_def)
  have 2: "relax_d True ''A'' closed_road (dijkstra_init busy_graph ''A'')
     = \<lparr>graph_d = busy_graph, distances_d = [(''A'', Num 0), (''B'', Num 10)],
        previous_d = [(''A'', None), (''B'', Some ''A'')], visited_d = [],
        pq_d = [(Num 0, ''A''), (Num 10, ''B'')]\<rparr>"
    using r [where em = True and e = closed_road] by (simp add: ev dijkstra_init_def)
  have 3: "relax_d False ''A'' closed_road (dijkstra_init busy_graph ''A'')
     = dijkstra_init busy_graph ''A''"
    using r [where em = False and e = closed_road] by (simp add: ev)
  have 4: "gScore (relax_a (node_at ''B'' 0 0) False ''A'' busy_road
             (aStar_init busy_graph (node_at ''B'' 0 0) ''A''))
     = [(''A'', Num 0), (''B'', Num 20)]"
    using r [where em = False and e = busy_road]
    by (simp add: ev aStar_init_def init_fScore_def heuristic_def)
  have 5: "relax_a (node_at ''B'' 0 0) False ''A'' closed_road
             (aStar_init busy_graph (node_at ''B'' 0 0) ''A'')
     = aStar_init busy_graph (node_at ''B'' 0 0) ''A''"
    using r [where em = False and e = closed_road] by (simp add: ev)
  have 6: "all_edges busy_graph False = [(''A'', ''B'', 20)]"
    using r [where em = False] by (simp add: ev)
  have 7: "all_edges busy_graph True = [(''A'', ''B'', 10), (''A'', ''B'', 10)]"
    using r [where em = True] by (simp add: ev)
  have 8: "distances_b (relax_b (''A'', ''B'', 20) (bellmanFord_init busy_graph ''A''))
     = [(''A'', Num 0), (''B'', Num 20)]"
    using r by (simp add: ev bellmanFord_init_def)
  have 9: "map_option distance (dijkstra busy_graph ''A'' ''B'' False) = Some (Num 20)"
    "map_option distance (dijkstra busy_graph ''A'' ''B'' True) = Some (Num 10)"
    by (simp_all add: ev dijkstra_eval)
  have 10: "map_option distance (aStar busy_graph ''A'' ''B'' False) = Some (Num 20)"
    "map_option distance (aStar busy_graph ''A'' ''B'' True) = Some (Num 10)"
    by (simp_all add: ev aStar_eval)
  have 11: "map_option distance (bellmanFord busy_graph ''A'' ''B'' False) = Some (Num 20)"
    "map_option distance (bellmanFord busy_graph ''A'' ''B'' True) = Some (Num 10)"
    by (simp_all add: ev bellmanFord_eval)
  from 1 2 3 4 5 6 7 8 9 10 11 show ?thesis by (intro conjI)
qed

section \<open>The queue is a min-heap\<close>

text \<open>The priority of an entry as a real, for entries whose priority is finite.\<close>

definition key :: "'a entry \<Rightarrow> real" where
  "key e = (case fst e of Num r \<Rightarrow> r | _ \<Rightarrow> 0)"

definition finite_prios :: "'a entry list \<Rightarrow> bool" where
  "finite_prios h = (\<forall>e \<in> set h. \<exists>r. fst e = Num r)"

definition heap_ok :: "'a entry list \<Rightarrow> bool" where
  "heap_ok h =
     (finite_prios h \<and> (\<forall>j. 0 < j \<and> j < length h \<longrightarrow> key (h ! ((j - 1) div 2)) \<le> key (h ! j)))"

lemma num_le_key:
  assumes "finite_prios h" "a \<in> set h" "b \<in> set h"
  shows "num_le (fst a) (fst b) = (key a \<le> key b)"
proof -
  from assms obtain ra rb where "fst a = Num ra" "fst b = Num rb"
    unfolding finite_prios_def by blast
  then show ?thesis by (simp add: key_def)
qed

lemma num_less_key:
  assumes "finite_prios h" "a \<in> set h" "b \<in> set h"
  shows "num_less (fst a) (fst b) = (key a < key b)"
proof -
  from assms obtain ra rb where "fst a = Num ra" "fst b = Num rb"
    unfolding finite_prios_def by blast
  then show ?thesis by (simp add: key_def)
qed

lemma finite_prios_swap:
  "finite_prios h \<Longrightarrow> i < length h \<Longrightarrow> j < length h \<Longrightarrow> finite_prios (swap h i j)"
  using mset_swap_heap [of i h j] by (metis finite_prios_def set_mset_mset)

lemma swap_nth:
  "i < length h \<Longrightarrow> j < length h \<Longrightarrow> k < length h \<Longrightarrow>
   swap h i j ! k = (if k = j then h ! i else if k = i then h ! j else h ! k)"
  by (auto simp: swap_def nth_list_update)

lemma parent_eq: "0 < (j::nat) \<Longrightarrow> ((j - 1) div 2 = i) = (j = 2 * i + 1 \<or> j = 2 * i + 2)"
  by presburger

lemma parent_less: "0 < (j::nat) \<Longrightarrow> (j - 1) div 2 < j"
  by presburger

subsection \<open>bubbleUp\<close>

definition up_ok :: "'a entry list \<Rightarrow> nat \<Rightarrow> bool" where
  "up_ok h i =
     (finite_prios h \<and> i < length h \<and>
      (\<forall>j. 0 < j \<and> j < length h \<and> j \<noteq> i \<longrightarrow> key (h ! ((j - 1) div 2)) \<le> key (h ! j)) \<and>
      (\<forall>j. 0 < j \<and> j < length h \<and> (j - 1) div 2 = i \<and> 0 < i
           \<longrightarrow> key (h ! ((i - 1) div 2)) \<le> key (h ! j)))"

lemma up_ok_swap:
  assumes u: "up_ok h i" and i: "0 < i" and lt: "key (h ! i) < key (h ! ((i - 1) div 2))"
  shows "up_ok (swap h ((i - 1) div 2) i) ((i - 1) div 2)"
proof -
  let ?p = "(i - 1) div 2"
  let ?h = "swap h ?p i"
  from u have fin: "finite_prios h" and il: "i < length h"
    and heap: "\<And>j. 0 < j \<Longrightarrow> j < length h \<Longrightarrow> j \<noteq> i \<Longrightarrow> key (h ! ((j - 1) div 2)) \<le> key (h ! j)"
    and gp: "\<And>j. 0 < j \<Longrightarrow> j < length h \<Longrightarrow> (j - 1) div 2 = i
                 \<Longrightarrow> key (h ! ((i - 1) div 2)) \<le> key (h ! j)"
    using i by (auto simp: up_ok_def)
  have pi: "?p < i" using i by (rule parent_less)
  then have pl: "?p < length h" using il by simp
  have nth: "?h ! k = (if k = i then h ! ?p else if k = ?p then h ! i else h ! k)"
    if "k < length h" for k
    using swap_nth [OF pl il that] by simp
  have 1: "key (?h ! ((j - 1) div 2)) \<le> key (?h ! j)"
    if j: "0 < j" "j < length h" "j \<noteq> ?p" for j
  proof -
    have jl: "(j - 1) div 2 < length h" using parent_less [OF j(1)] j(2) by simp
    show ?thesis
    proof (cases "j = i")
      case True
      then show ?thesis using lt nth [OF il] nth [OF pl] pi by simp
    next
      case False
      consider (p) "(j - 1) div 2 = ?p" | (i) "(j - 1) div 2 = i"
        | (o) "(j - 1) div 2 \<noteq> ?p" "(j - 1) div 2 \<noteq> i" by blast
      then show ?thesis
      proof cases
        case p
        have "key (h ! i) \<le> key (h ! j)" using lt heap [OF j(1,2) False] p by simp
        then show ?thesis using nth [OF j(2)] nth [OF pl] False j(3) p pi by simp
      next
        case i
        have "key (h ! ?p) \<le> key (h ! j)" by (rule gp [OF j(1,2) i])
        then show ?thesis using nth [OF j(2)] nth [OF il] False j(3) i pi by simp
      next
        case o
        then show ?thesis using nth [OF j(2)] nth [OF jl] False j(3) heap [OF j(1,2) False] by simp
      qed
    qed
  qed
  have 2: "key (?h ! ((?p - 1) div 2)) \<le> key (?h ! j)"
    if j: "0 < j" "j < length h" "(j - 1) div 2 = ?p" "0 < ?p" for j
  proof -
    have ppl: "(?p - 1) div 2 < ?p" using j(4) by (rule parent_less)
    then have ppn: "?h ! ((?p - 1) div 2) = h ! ((?p - 1) div 2)"
      using nth [of "(?p - 1) div 2"] pl pi by simp
    have hp: "key (h ! ((?p - 1) div 2)) \<le> key (h ! ?p)"
      using heap [OF j(4) pl] pi by simp
    have jp: "j \<noteq> ?p" using parent_less [OF j(1)] j(3) by simp
    show ?thesis
    proof (cases "j = i")
      case True
      then show ?thesis using ppn hp nth [OF il] by simp
    next
      case False
      have "key (h ! ?p) \<le> key (h ! j)" using heap [OF j(1,2) False] j(3) by simp
      then show ?thesis using ppn hp nth [OF j(2)] False jp by simp
    qed
  qed
  show ?thesis
    unfolding up_ok_def using finite_prios_swap [OF fin pl il] pl 1 2 by simp
qed

lemma bubbleUp_heap: "up_ok h i \<Longrightarrow> heap_ok (bubbleUp h i)"
proof (induction h i rule: bubbleUp.induct)
  case (1 h index)
  let ?p = "(index - 1) div 2"
  from "1.prems" have fin: "finite_prios h" and il: "index < length h"
    by (simp_all add: up_ok_def)
  show ?case
  proof (cases "0 < index")
    case False
    then have "bubbleUp h index = h" by (subst bubbleUp.simps) simp
    moreover have "heap_ok h" using "1.prems" False by (auto simp: up_ok_def heap_ok_def)
    ultimately show ?thesis by simp
  next
    case True
    have pl: "?p < length h" using parent_less [OF True] il by simp
    have le: "num_le (fst (h ! ?p)) (fst (h ! index)) = (key (h ! ?p) \<le> key (h ! index))"
      by (rule num_le_key [OF fin nth_mem [OF pl] nth_mem [OF il]])
    show ?thesis
    proof (cases "key (h ! ?p) \<le> key (h ! index)")
      case le': True
      then have "bubbleUp h index = h" using True le by (subst bubbleUp.simps) (simp add: Let_def)
      moreover have "heap_ok h"
        unfolding heap_ok_def using "1.prems" le' by (auto simp: up_ok_def)
      ultimately show ?thesis by simp
    next
      case gt: False
      then have "bubbleUp h index = bubbleUp (swap h ?p index) ?p"
        using True le by (subst bubbleUp.simps) (simp add: Let_def)
      moreover have "heap_ok (bubbleUp (swap h ?p index) ?p)"
        using True gt le by (intro "1.IH" up_ok_swap [OF "1.prems"]) simp_all
      ultimately show ?thesis by simp
    qed
  qed
qed

lemma heap_ok_enqueue:
  assumes "heap_ok h"
  shows "heap_ok (enqueue v (Num r) h)"
proof -
  have "up_ok (h @ [(Num r, v)]) (length h)"
    unfolding up_ok_def
  proof (intro conjI allI impI)
    show "finite_prios (h @ [(Num r, v)])" using assms by (auto simp: heap_ok_def finite_prios_def)
    show "length h < length (h @ [(Num r, v)])" by simp
  next
    fix j
    assume j: "0 < j \<and> j < length (h @ [(Num r, v)]) \<and> j \<noteq> length h"
    then have jl: "j < length h" by simp
    with parent_less [of j] j have "(j - 1) div 2 < length h" by simp
    with jl j assms show "key ((h @ [(Num r, v)]) ! ((j - 1) div 2)) \<le> key ((h @ [(Num r, v)]) ! j)"
      by (simp add: nth_append heap_ok_def)
  next
    fix j
    assume j: "0 < j \<and> j < length (h @ [(Num r, v)]) \<and> (j - 1) div 2 = length h \<and> 0 < length h"
    with parent_less [of j] have False by simp
    then show "key ((h @ [(Num r, v)]) ! ((length h - 1) div 2)) \<le> key ((h @ [(Num r, v)]) ! j)" ..
  qed
  then show ?thesis by (simp add: enqueue_def Let_def bubbleUp_heap)
qed

subsection \<open>bubbleDown\<close>

lemma parent_children: "0 < (j::nat) \<Longrightarrow> (j - 1) div 2 = i \<Longrightarrow> j = 2 * i + 1 \<or> j = 2 * i + 2"
  by presburger

lemma smallest_of_props:
  assumes fin: "finite_prios h" and i: "i < length h"
  shows "smallest_of h i \<in> {i, 2 * i + 1, 2 * i + 2}"
    and "smallest_of h i < length h"
    and "key (h ! smallest_of h i) \<le> key (h ! i)"
    and "2 * i + 1 < length h \<Longrightarrow> key (h ! smallest_of h i) \<le> key (h ! (2 * i + 1))"
    and "2 * i + 2 < length h \<Longrightarrow> key (h ! smallest_of h i) \<le> key (h ! (2 * i + 2))"
    and "smallest_of h i \<noteq> i \<Longrightarrow> key (h ! smallest_of h i) < key (h ! i)"
proof -
  let ?l = "2 * i + 1" and ?r = "2 * i + 2"
  define s1 where "s1 = (if ?l < length h \<and> num_less (fst (h ! ?l)) (fst (h ! i)) then ?l else i)"
  have sm: "smallest_of h i = (if ?r < length h \<and> num_less (fst (h ! ?r)) (fst (h ! s1)) then ?r else s1)"
    by (simp add: smallest_of_def Let_def s1_def)
  have s1l: "s1 < length h" using i by (simp add: s1_def)
  have lk: "num_less (fst (h ! a)) (fst (h ! b)) = (key (h ! a) < key (h ! b))"
    if "a < length h" "b < length h" for a b
    by (rule num_less_key [OF fin nth_mem [OF that(1)] nth_mem [OF that(2)]])
  have s1i: "key (h ! s1) \<le> key (h ! i)" using lk [of ?l i] i by (auto simp: s1_def)
  have s1ll: "key (h ! s1) \<le> key (h ! ?l)" if "?l < length h"
    using lk [of ?l i] i that by (auto simp: s1_def)
  have s1lt: "s1 \<noteq> i \<Longrightarrow> key (h ! s1) < key (h ! i)"
    using lk [of ?l i] i by (auto simp: s1_def split: if_splits)
  show "smallest_of h i \<in> {i, ?l, ?r}" by (simp add: sm s1_def)
  show "smallest_of h i < length h" using s1l by (simp add: sm)
  show "key (h ! smallest_of h i) \<le> key (h ! i)"
    using s1i lk [of ?r s1] s1l by (auto simp: sm)
  show "key (h ! smallest_of h i) \<le> key (h ! ?l)" if "?l < length h"
    using s1ll [OF that] lk [of ?r s1] s1l by (auto simp: sm)
  show "key (h ! smallest_of h i) \<le> key (h ! ?r)" if "?r < length h"
    using that lk [of ?r s1] s1l by (auto simp: sm)
  show "key (h ! smallest_of h i) < key (h ! i)" if "smallest_of h i \<noteq> i"
    using that s1i s1lt lk [of ?r s1] s1l by (auto simp: sm split: if_splits)
qed

definition down_ok :: "'a entry list \<Rightarrow> nat \<Rightarrow> bool" where
  "down_ok h i =
     (finite_prios h \<and> i < length h \<and>
      (\<forall>j. 0 < j \<and> j < length h \<and> (j - 1) div 2 \<noteq> i \<longrightarrow> key (h ! ((j - 1) div 2)) \<le> key (h ! j)) \<and>
      (\<forall>j. 0 < j \<and> j < length h \<and> (j - 1) div 2 = i \<and> 0 < i
           \<longrightarrow> key (h ! ((i - 1) div 2)) \<le> key (h ! j)))"

lemma down_ok_swap:
  assumes d: "down_ok h i" and ne: "smallest_of h i \<noteq> i"
  shows "down_ok (swap h (smallest_of h i) i) (smallest_of h i)"
proof -
  let ?s = "smallest_of h i"
  let ?h = "swap h ?s i"
  from d have fin: "finite_prios h" and il: "i < length h"
    and heap: "\<And>j. 0 < j \<Longrightarrow> j < length h \<Longrightarrow> (j - 1) div 2 \<noteq> i
                 \<Longrightarrow> key (h ! ((j - 1) div 2)) \<le> key (h ! j)"
    and gp: "\<And>j. 0 < j \<Longrightarrow> j < length h \<Longrightarrow> (j - 1) div 2 = i \<Longrightarrow> 0 < i
                 \<Longrightarrow> key (h ! ((i - 1) div 2)) \<le> key (h ! j)"
    by (auto simp: down_ok_def)
  note sp = smallest_of_props [OF fin il]
  have sl: "?s < length h" by (rule sp(2))
  have child: "?s = 2 * i + 1 \<or> ?s = 2 * i + 2" using sp(1) ne by auto
  then have s0: "0 < ?s" and ps: "(?s - 1) div 2 = i" and i_lt_s: "i < ?s" by auto
  have lt: "key (h ! ?s) < key (h ! i)" by (rule sp(6) [OF ne])
  have nth: "?h ! k = (if k = i then h ! ?s else if k = ?s then h ! i else h ! k)"
    if "k < length h" for k
    using swap_nth [OF sl il that] by simp
  have sib: "key (h ! ?s) \<le> key (h ! j)" if "0 < j" "j < length h" "(j - 1) div 2 = i" for j
  proof -
    from that(1,3) have "j = 2 * i + 1 \<or> j = 2 * i + 2" by (rule parent_children)
    with sp(4,5) that(2) show ?thesis by auto
  qed
  have 1: "key (?h ! ((j - 1) div 2)) \<le> key (?h ! j)"
    if j: "0 < j" "j < length h" "(j - 1) div 2 \<noteq> ?s" for j
  proof -
    have jl: "(j - 1) div 2 < length h" using parent_less [OF j(1)] j(2) by simp
    show ?thesis
    proof (cases "(j - 1) div 2 = i")
      case True
      then have ji: "j \<noteq> i" using parent_less [OF j(1)] by simp
      show ?thesis
      proof (cases "j = ?s")
        case True
        then show ?thesis using lt nth [OF sl] nth [OF il] ps i_lt_s by simp
      next
        case False
        with sib [OF j(1,2) True] show ?thesis
          using nth [OF j(2)] nth [OF il] True ji i_lt_s by simp
      qed
    next
      case False
      have js: "j \<noteq> ?s" using False ps by auto
      show ?thesis
      proof (cases "j = i")
        case True
        then have i0: "0 < i" using j(1) by simp
        have "key (h ! ((i - 1) div 2)) \<le> key (h ! ?s)" by (rule gp [OF s0 sl ps i0])
        moreover have "(i - 1) div 2 \<noteq> i" "(i - 1) div 2 \<noteq> ?s"
          using parent_less [OF i0] i_lt_s by simp_all
        ultimately show ?thesis using True nth [OF il] nth [of "(i - 1) div 2"] jl by simp
      next
        case ji: False
        from heap [OF j(1,2) False] show ?thesis
          using nth [OF j(2)] nth [OF jl] False j(3) js ji by simp
      qed
    qed
  qed
  have 2: "key (?h ! ((?s - 1) div 2)) \<le> key (?h ! j)"
    if j: "0 < j" "j < length h" "(j - 1) div 2 = ?s" for j
  proof -
    have "?s < j" using parent_less [OF j(1)] j(3) by simp
    then have "j \<noteq> i" "j \<noteq> ?s" using i_lt_s by simp_all
    moreover have "key (h ! ?s) \<le> key (h ! j)" using heap [OF j(1,2)] j(3) ne by simp
    ultimately show ?thesis using nth [OF j(2)] nth [OF il] ps by simp
  qed
  show ?thesis
    unfolding down_ok_def using finite_prios_swap [OF fin sl il] sl 1 2 by simp
qed

lemma bubbleDown_heap: "down_ok h i \<Longrightarrow> heap_ok (bubbleDown h i)"
proof (induction h i rule: bubbleDown.induct)
  case (1 h index)
  from "1.prems" have fin: "finite_prios h" and il: "index < length h"
    by (simp_all add: down_ok_def)
  note sp = smallest_of_props [OF fin il]
  show ?case
  proof (cases "smallest_of h index = index")
    case True
    then have b: "bubbleDown h index = h" by (subst bubbleDown.simps) simp
    have "key (h ! ((j - 1) div 2)) \<le> key (h ! j)" if j: "0 < j" "j < length h" for j
    proof (cases "(j - 1) div 2 = index")
      case pj: True
      with j(1) have "j = 2 * index + 1 \<or> j = 2 * index + 2" by (intro parent_children)
      with sp(4,5) j(2) True pj show ?thesis by auto
    next
      case False
      with "1.prems" j show ?thesis by (simp add: down_ok_def)
    qed
    with fin show ?thesis unfolding b heap_ok_def by simp
  next
    case False
    then have "bubbleDown h index
               = bubbleDown (swap h (smallest_of h index) index) (smallest_of h index)"
      by (subst bubbleDown.simps) (simp add: Let_def)
    moreover have "heap_ok (bubbleDown (swap h (smallest_of h index) index) (smallest_of h index))"
      using False by (intro "1.IH" down_ok_swap [OF "1.prems"]) simp_all
    ultimately show ?thesis by simp
  qed
qed

lemma heap_ok_Nil [simp]: "heap_ok []"
  by (simp add: heap_ok_def finite_prios_def)

lemma heap_ok_dequeue:
  assumes "heap_ok h" "dequeue h = (c, h')"
  shows "heap_ok h'"
proof (cases "butlast h = []")
  case True
  with assms show ?thesis by (auto simp: dequeue_def Let_def split: if_splits)
next
  case False
  then have ne: "h \<noteq> []" by auto
  let ?h1 = "(butlast h)[0 := last h]"
  from assms(1) have fin: "finite_prios h"
    and heap: "\<And>j. 0 < j \<Longrightarrow> j < length h \<Longrightarrow> key (h ! ((j - 1) div 2)) \<le> key (h ! j)"
    by (auto simp: heap_ok_def)
  have "down_ok ?h1 0"
    unfolding down_ok_def
  proof (intro conjI allI impI)
    have "set ?h1 \<subseteq> set h"
      using set_update_subset_insert [of "butlast h" 0 "last h"] ne
      by (auto dest: in_set_butlastD)
    with fin show "finite_prios ?h1" by (auto simp: finite_prios_def)
    show "0 < length ?h1" using False by (simp del: length_butlast)
  next
    fix j
    assume j: "0 < j \<and> j < length ?h1 \<and> (j - 1) div 2 \<noteq> 0"
    then have jl: "j < length h - 1" by simp
    have pl: "(j - 1) div 2 < length h - 1" using parent_less [of j] j by simp
    have "?h1 ! j = h ! j" using j jl by (simp add: nth_butlast)
    moreover have "?h1 ! ((j - 1) div 2) = h ! ((j - 1) div 2)" using j pl by (simp add: nth_butlast)
    moreover have "key (h ! ((j - 1) div 2)) \<le> key (h ! j)"
      using j jl by (intro heap) auto
    ultimately show "key (?h1 ! ((j - 1) div 2)) \<le> key (?h1 ! j)" by simp
  next
    fix j
    assume "0 < j \<and> j < length ?h1 \<and> (j - 1) div 2 = 0 \<and> (0::nat) < 0"
    then show "key (?h1 ! ((0 - 1) div 2)) \<le> key (?h1 ! j)" by simp
  qed
  then have "heap_ok (bubbleDown ?h1 0)" by (rule bubbleDown_heap)
  with assms(2) False ne show ?thesis by (auto simp: dequeue_def Let_def)
qed

lemma heap_ok_min:
  assumes "heap_ok h" "i < length h"
  shows "key (h ! 0) \<le> key (h ! i)"
  using assms(2)
proof (induction i rule: less_induct)
  case (less i)
  show ?case
  proof (cases "i = 0")
    case True
    then show ?thesis by simp
  next
    case False
    then have i0: "0 < i" by simp
    have "key (h ! 0) \<le> key (h ! ((i - 1) div 2))"
      using parent_less [OF i0] less.prems by (intro less.IH) simp_all
    also have "\<dots> \<le> key (h ! i)" using assms(1) i0 less.prems by (simp add: heap_ok_def)
    finally show ?thesis .
  qed
qed

text \<open>What \<open>dequeue\<close> hands out is an entry of least priority.\<close>

lemma dequeue_min:
  assumes "heap_ok h" "h \<noteq> []" "dequeue h = (Some c, h')"
  shows "\<exists>p. (p, c) \<in> set h \<and> set h = insert (p, c) (set h') \<and> heap_ok h' \<and>
             (\<forall>e \<in> set h. key (p, c) \<le> key e)"
proof -
  from dequeue_cases [OF assms(3,2)] have c: "c = snd (h ! 0)" by simp
  have s: "set h = insert (h ! 0) (set h')" by (rule dequeue_set [OF assms(3,2)])
  have m: "key (h ! 0) \<le> key e" if "e \<in> set h" for e
    using that heap_ok_min [OF assms(1)] by (auto simp: in_set_conv_nth)
  have "h ! 0 = (fst (h ! 0), c)" by (simp add: c)
  with s m heap_ok_dequeue [OF assms(1,3)] show ?thesis
    by (intro exI [of _ "fst (h ! 0)"]) (metis insertI1)
qed

section \<open>The order of settling and the predecessor links\<close>

text \<open>The place of an id in the visited trace; the length of the trace for an id not in it.\<close>

definition rank :: "string list \<Rightarrow> string \<Rightarrow> nat" where
  "rank V x = length (takeWhile (\<lambda>y. y \<noteq> x) V)"

lemma rank_le: "rank V x \<le> length V"
  by (simp add: rank_def length_takeWhile_le)

lemma rank_less_iff: "(rank V x < length V) = (x \<in> set V)"
  by (induction V) (auto simp: rank_def)

lemma rank_notin: "x \<notin> set V \<Longrightarrow> rank V x = length V"
  using rank_less_iff [of V x] rank_le [of V x] by simp

lemma rank_append_in: "x \<in> set V \<Longrightarrow> rank (V @ W) x = rank V x"
  by (induction V) (auto simp: rank_def)

lemma rank_append_notin: "x \<notin> set V \<Longrightarrow> rank (V @ W) x = length V + rank W x"
  by (induction V) (auto simp: rank_def)

lemma rank_append_mono: "rank V u < rank V v \<Longrightarrow> rank (V @ W) u < rank (V @ W) v"
proof -
  assume a: "rank V u < rank V v"
  with rank_le [of V v] have "rank V u < length V" by simp
  then have u: "u \<in> set V" by (simp add: rank_less_iff)
  show ?thesis
  proof (cases "v \<in> set V")
    case True
    with u a show ?thesis by (simp add: rank_append_in)
  next
    case False
    with u rank_less_iff [of V u] show ?thesis by (simp add: rank_append_in rank_append_notin)
  qed
qed

text \<open>
  When every link leads to an id settled earlier, the path reconstruction returns.
\<close>

lemma reconstruct_returns:
  assumes links: "\<And>v u. map_of P v = Some (Some u) \<Longrightarrow> rank V u < rank V v"
  shows "\<exists>y. reconstruct P cur pth = Some y"
proof (induction "case cur of None \<Rightarrow> 0 | Some c \<Rightarrow> Suc (rank V c)" arbitrary: cur pth
       rule: less_induct)
  case less
  show ?case
  proof (cases cur)
    case None
    then show ?thesis by (subst reconstruct.simps) simp
  next
    case (Some c)
    show ?thesis
    proof (cases "or_null (map_of P c)")
      case None
      then show ?thesis using Some by (simp add: reconstruct_unlinked)
    next
      case u: (Some u)
      then have "map_of P c = Some (Some u)"
        by (auto simp: or_null_def split: option.splits if_splits)
      from links [OF this] have "\<exists>y. reconstruct P (Some u) (c # pth) = Some y"
        using Some by (intro less) simp
      then show ?thesis using Some u by (subst reconstruct.simps) simp
    qed
  qed
qed

section \<open>The invariant of the A* loop\<close>

lemma edge_cost_d_rule: "edge_cost_d em e = effective_weight e em"
  by (simp add: edge_cost_d_def effective_weight_def)

lemma edge_cost_a_rule: "edge_cost_a em e = effective_weight e em"
  by (simp add: edge_cost_a_def effective_weight_def)

lemma get_num_update: "get_num (AList.update k x m) y = (if y = k then x else get_num m y)"
  by (simp add: get_num_def update_conv')

lemma key_Num [simp]: "key (Num r, v) = r"
  by (simp add: key_def)

text \<open>The heuristic of a node as a real.\<close>

definition h_val :: "Graph \<Rightarrow> Node \<Rightarrow> string \<Rightarrow> real" where
  "h_val g en v = (case heuristic g en v of Num r \<Rightarrow> r | _ \<Rightarrow> 0)"

lemma heuristic_node:
  "v \<in> fst ` set (nodes g) \<Longrightarrow> heuristic g en v = Num (h_val g en v)"
  by (auto simp: h_val_def heuristic_def map_of_eq_None_iff split: option.splits)

text \<open>
  The heuristic is consistent: along every traversable edge from a node it drops by no
  more than the effective weight of the edge.
\<close>

definition consistent :: "Graph \<Rightarrow> Node \<Rightarrow> bool \<Rightarrow> bool" where
  "consistent g en em =
     (\<forall>u v w. u \<in> fst ` set (nodes g) \<and> hop g em u v w \<longrightarrow> h_val g en u \<le> w + h_val g en v)"

definition scores_ok :: "Graph \<Rightarrow> bool \<Rightarrow> string \<Rightarrow> aStar_state \<Rightarrow> bool" where
  "scores_ok g em s st =
     (graph_a st = g \<and> fst ` set (gScore st) = fst ` set (nodes g) \<and>
      fst ` set (previous_a st) = fst ` set (nodes g) \<and>
      (\<forall>v \<in> fst ` set (nodes g). get_num (gScore st) v \<noteq> NaN) \<and>
      (\<forall>v a. get_num (gScore st) v = Num a \<longrightarrow> route g em s v a) \<and>
      (\<exists>a\<le>0. get_num (gScore st) s = Num a))"

definition queue_ok :: "Graph \<Rightarrow> Node \<Rightarrow> aStar_state \<Rightarrow> bool" where
  "queue_ok g en st =
     (heap_ok (pq_a st) \<and>
      (\<forall>(p, v) \<in> set (pq_a st).
          \<exists>a b. p = Num (a + h_val g en v) \<and> get_num (gScore st) v = Num b \<and> b \<le> a) \<and>
      (\<forall>v a. v \<notin> set (visited_a st) \<and> get_num (gScore st) v = Num a
          \<longrightarrow> (Num (a + h_val g en v), v) \<in> set (pq_a st)))"

definition settled_ok :: "aStar_state \<Rightarrow> bool" where
  "settled_ok st =
     (distinct (visited_a st) \<and>
      (\<forall>u \<in> set (visited_a st). \<exists>a. get_num (gScore st) u = Num a) \<and>
      (\<forall>v u. map_of (previous_a st) v = Some (Some u)
          \<longrightarrow> rank (visited_a st) u < rank (visited_a st) v))"

definition relaxed_from :: "Graph \<Rightarrow> bool \<Rightarrow> string set \<Rightarrow> aStar_state \<Rightarrow> bool" where
  "relaxed_from g em U st =
     (\<forall>u \<in> U. \<forall>v w a. get_num (gScore st) u = Num a \<and> hop g em u v w
         \<longrightarrow> (\<exists>b. get_num (gScore st) v = Num b \<and> b \<le> a + w))"

definition front_ok :: "Graph \<Rightarrow> Node \<Rightarrow> aStar_state \<Rightarrow> bool" where
  "front_ok g en st =
     (\<forall>u \<in> set (visited_a st). \<forall>a. get_num (gScore st) u = Num a
         \<longrightarrow> (\<forall>e \<in> set (pq_a st). a + h_val g en u \<le> key e))"

definition loop_inv :: "Graph \<Rightarrow> Node \<Rightarrow> bool \<Rightarrow> string \<Rightarrow> aStar_state \<Rightarrow> bool" where
  "loop_inv g en em s st =
     (scores_ok g em s st \<and> queue_ok g en st \<and> settled_ok st \<and>
      relaxed_from g em (set (visited_a st)) st \<and> front_ok g en st)"

text \<open>While the edges of \<open>cur\<close> are relaxed; \<open>D\<close> are the edges done.\<close>

definition gval :: "aStar_state \<Rightarrow> string \<Rightarrow> real" where
  "gval st v = (case get_num (gScore st) v of Num a \<Rightarrow> a | _ \<Rightarrow> 0)"

definition relaxing :: "Graph \<Rightarrow> Node \<Rightarrow> bool \<Rightarrow> string \<Rightarrow> Edge set \<Rightarrow> aStar_state \<Rightarrow> bool" where
  "relaxing g en em cur D st =
     (cur \<in> set (visited_a st) \<and> relaxed_from g em (set (visited_a st) - {cur}) st \<and>
      (\<forall>v \<in> set (visited_a st).
          get_num (gScore st) v = Num (gval st v) \<and>
          gval st v + h_val g en v \<le> gval st cur + h_val g en cur) \<and>
      (\<forall>e \<in> set (pq_a st). gval st cur + h_val g en cur \<le> key e) \<and>
      (\<forall>e \<in> D. \<forall>w. effective_weight e em = Some w \<and> to_edge e \<in> fst ` set (nodes g)
          \<longrightarrow> get_num (gScore st) (to_edge e) = Num (gval st (to_edge e)) \<and>
              gval st (to_edge e) \<le> gval st cur + w))"

definition mid_inv ::
  "Graph \<Rightarrow> Node \<Rightarrow> bool \<Rightarrow> string \<Rightarrow> string \<Rightarrow> Edge set \<Rightarrow> aStar_state \<Rightarrow> bool" where
  "mid_inv g en em s cur D st =
     (scores_ok g em s st \<and> queue_ok g en st \<and> settled_ok st \<and> relaxing g en em cur D st)"

lemma scores_okD:
  assumes "scores_ok g em s st"
  shows "graph_a st = g" "fst ` set (gScore st) = fst ` set (nodes g)"
    "fst ` set (previous_a st) = fst ` set (nodes g)"
    "\<And>v. v \<in> fst ` set (nodes g) \<Longrightarrow> get_num (gScore st) v \<noteq> NaN"
    "\<And>v a. get_num (gScore st) v = Num a \<Longrightarrow> route g em s v a"
    "\<exists>a\<le>0. get_num (gScore st) s = Num a"
  using assms unfolding scores_ok_def by blast+

lemma queue_okD:
  assumes "queue_ok g en st"
  shows "heap_ok (pq_a st)"
    "\<And>p v. (p, v) \<in> set (pq_a st)
        \<Longrightarrow> \<exists>a b. p = Num (a + h_val g en v) \<and> get_num (gScore st) v = Num b \<and> b \<le> a"
    "\<And>v a. v \<notin> set (visited_a st) \<Longrightarrow> get_num (gScore st) v = Num a
        \<Longrightarrow> (Num (a + h_val g en v), v) \<in> set (pq_a st)"
  using assms unfolding queue_ok_def by blast+

lemma settled_okD:
  assumes "settled_ok st"
  shows "distinct (visited_a st)"
    "\<And>u. u \<in> set (visited_a st) \<Longrightarrow> \<exists>a. get_num (gScore st) u = Num a"
    "\<And>v u. map_of (previous_a st) v = Some (Some u)
        \<Longrightarrow> rank (visited_a st) u < rank (visited_a st) v"
  using assms unfolding settled_ok_def by blast+

lemma relaxed_fromD:
  "relaxed_from g em U st \<Longrightarrow> u \<in> U \<Longrightarrow> get_num (gScore st) u = Num a \<Longrightarrow> hop g em u v w
   \<Longrightarrow> \<exists>b. get_num (gScore st) v = Num b \<and> b \<le> a + w"
  unfolding relaxed_from_def by blast

lemma front_okD:
  "front_ok g en st \<Longrightarrow> u \<in> set (visited_a st) \<Longrightarrow> get_num (gScore st) u = Num a
   \<Longrightarrow> e \<in> set (pq_a st) \<Longrightarrow> a + h_val g en u \<le> key e"
  unfolding front_ok_def by blast

lemma gval_Num: "get_num (gScore st) v = Num a \<Longrightarrow> gval st v = a"
  by (simp add: gval_def)

lemma relaxingD:
  assumes "relaxing g en em cur D st"
  shows "cur \<in> set (visited_a st)"
    "relaxed_from g em (set (visited_a st) - {cur}) st"
    "\<And>v. v \<in> set (visited_a st) \<Longrightarrow> get_num (gScore st) v = Num (gval st v)"
    "\<And>v. v \<in> set (visited_a st)
        \<Longrightarrow> gval st v + h_val g en v \<le> gval st cur + h_val g en cur"
    "\<And>e. e \<in> set (pq_a st) \<Longrightarrow> gval st cur + h_val g en cur \<le> key e"
    "\<And>e w. e \<in> D \<Longrightarrow> effective_weight e em = Some w \<Longrightarrow> to_edge e \<in> fst ` set (nodes g)
        \<Longrightarrow> get_num (gScore st) (to_edge e) = Num (gval st (to_edge e))"
    "\<And>e w. e \<in> D \<Longrightarrow> effective_weight e em = Some w \<Longrightarrow> to_edge e \<in> fst ` set (nodes g)
        \<Longrightarrow> gval st (to_edge e) \<le> gval st cur + w"
  using assms unfolding relaxing_def by blast+

lemma relaxingI:
  assumes "cur \<in> set (visited_a st)"
    "relaxed_from g em (set (visited_a st) - {cur}) st"
    "\<And>v. v \<in> set (visited_a st) \<Longrightarrow> get_num (gScore st) v = Num (gval st v)"
    "\<And>v. v \<in> set (visited_a st)
        \<Longrightarrow> gval st v + h_val g en v \<le> gval st cur + h_val g en cur"
    "\<And>e. e \<in> set (pq_a st) \<Longrightarrow> gval st cur + h_val g en cur \<le> key e"
    "\<And>e w. e \<in> D \<Longrightarrow> effective_weight e em = Some w \<Longrightarrow> to_edge e \<in> fst ` set (nodes g)
        \<Longrightarrow> get_num (gScore st) (to_edge e) = Num (gval st (to_edge e)) \<and>
            gval st (to_edge e) \<le> gval st cur + w"
  shows "relaxing g en em cur D st"
  using assms unfolding relaxing_def by blast

subsection \<open>One relaxation\<close>

lemma relax_a_cases:
  obtains (skip) "relax_a en em cur e st = st"
      "\<And>w. effective_weight e em = Some w \<Longrightarrow>
            \<not> num_less (num_add (get_num (gScore st) cur) (Num w))
                 (get_num (gScore st) (to_edge e))"
  | (update) w where "effective_weight e em = Some w"
      "num_less (num_add (get_num (gScore st) cur) (Num w)) (get_num (gScore st) (to_edge e))"
      "gScore (relax_a en em cur e st)
         = AList.update (to_edge e) (num_add (get_num (gScore st) cur) (Num w)) (gScore st)"
      "previous_a (relax_a en em cur e st)
         = AList.update (to_edge e) (Some cur) (previous_a st)"
      "pq_a (relax_a en em cur e st)
         = enqueue (to_edge e)
             (num_add (num_add (get_num (gScore st) cur) (Num w))
                (heuristic (graph_a st) en (to_edge e)))
             (pq_a st)"
proof (cases "effective_weight e em")
  case None
  then show ?thesis by (intro skip) (simp_all add: relax_a_def edge_cost_a_rule)
next
  case (Some w)
  show ?thesis
  proof (cases "num_less (num_add (get_num (gScore st) cur) (Num w))
                  (get_num (gScore st) (to_edge e))")
    case True
    with Some show ?thesis
      by (intro update [of w]) (simp_all add: relax_a_def edge_cost_a_rule Let_def get_num_update)
  next
    case False
    with Some show ?thesis by (intro skip) (simp_all add: relax_a_def edge_cost_a_rule Let_def)
  qed
qed

lemma mid_inv_skip:
  assumes m: "mid_inv g en em s cur D st"
    and nl: "\<And>w. effective_weight e em = Some w \<Longrightarrow>
            \<not> num_less (num_add (get_num (gScore st) cur) (Num w))
                 (get_num (gScore st) (to_edge e))"
  shows "mid_inv g en em s cur (insert e D) st"
proof -
  from m have sc: "scores_ok g em s st" and r: "relaxing g en em cur D st"
    by (simp_all add: mid_inv_def)
  note R = relaxingD [OF r]
  have cur: "get_num (gScore st) cur = Num (gval st cur)" by (rule R(3) [OF R(1)])
  have new: "get_num (gScore st) (to_edge e) = Num (gval st (to_edge e)) \<and>
             gval st (to_edge e) \<le> gval st cur + w"
    if w: "effective_weight e em = Some w" and k: "to_edge e \<in> fst ` set (nodes g)" for w
  proof -
    from scores_okD(4) [OF sc k] nl [OF w] show ?thesis
      unfolding cur by (cases "get_num (gScore st) (to_edge e)") (auto simp: gval_def)
  qed
  have "relaxing g en em cur (insert e D) st"
  proof (rule relaxingI [OF R(1,2,3,4,5)])
    fix e' w
    assume "e' \<in> insert e D" "effective_weight e' em = Some w"
      "to_edge e' \<in> fst ` set (nodes g)"
    then show "get_num (gScore st) (to_edge e') = Num (gval st (to_edge e')) \<and>
               gval st (to_edge e') \<le> gval st cur + w"
      using new R(6,7) by blast
  qed
  with m show ?thesis by (simp add: mid_inv_def)
qed

lemma get_num_Num_key: "get_num m k = Num a \<Longrightarrow> k \<in> fst ` set m"
  by (rule ccontr) (simp add: get_num_absent)

lemma consistentD:
  assumes "consistent g en em" "u \<in> fst ` set (nodes g)" "hop g em u v w"
  shows "h_val g en u \<le> w + h_val g en v"
  using assms(1) [unfolded consistent_def, rule_format, of u v w] assms(2,3) by simp

lemma mid_inv_update:
  assumes m: "mid_inv g en em s cur D st" and con: "consistent g en em"
    and e: "e \<in> set (edges_of g cur)" and w: "effective_weight e em = Some w"
    and lt: "num_less (num_add (get_num (gScore st) cur) (Num w))
               (get_num (gScore st) (to_edge e))"
    and G': "gScore st'
         = AList.update (to_edge e) (num_add (get_num (gScore st) cur) (Num w)) (gScore st)"
    and P': "previous_a st' = AList.update (to_edge e) (Some cur) (previous_a st)"
    and Q': "pq_a st'
         = enqueue (to_edge e)
             (num_add (num_add (get_num (gScore st) cur) (Num w))
                (heuristic (graph_a st) en (to_edge e)))
             (pq_a st)"
    and V': "visited_a st' = visited_a st" and gr': "graph_a st' = graph_a st"
  shows "mid_inv g en em s cur (insert e D) st'"
proof -
  let ?v = "to_edge e" and ?K = "fst ` set (nodes g)"
  let ?b = "gval st cur"
  from m have sc: "scores_ok g em s st" and qo: "queue_ok g en st" and so: "settled_ok st"
    and r: "relaxing g en em cur D st"
    by (simp_all add: mid_inv_def)
  note S = scores_okD [OF sc] and Qd = queue_okD [OF qo] and Sd = settled_okD [OF so]
    and R = relaxingD [OF r]
  have cur: "get_num (gScore st) cur = Num ?b" by (rule R(3) [OF R(1)])
  have vK: "?v \<in> ?K" using get_num_less_key [OF lt] S(2) by simp
  have curK: "cur \<in> ?K" using get_num_Num_key [OF cur] S(2) by simp
  have hv: "heuristic (graph_a st) en ?v = Num (h_val g en ?v)"
    using heuristic_node [OF vK] S(1) by simp
  have "\<exists>edge\<in>set (edges_of g cur). to_edge edge = ?v \<and> effective_weight edge em = Some w"
    using e w by (intro bexI [of _ e]) simp_all
  then have hop: "hop g em cur ?v w" using vK by (simp add: hop_def)
  have cons: "h_val g en cur \<le> w + h_val g en ?v"
    by (rule consistentD [OF con curK hop])
  have lt': "num_less (Num (?b + w)) (get_num (gScore st) ?v)" using lt cur by simp
  have old: "get_num (gScore st) ?v = Num a \<Longrightarrow> ?b + w < a" for a using lt' by simp
  have vV: "?v \<notin> set (visited_a st)"
  proof
    assume "?v \<in> set (visited_a st)"
    from old [OF R(3) [OF this]] R(4) [OF this] cons show False by linarith
  qed
  then have vcur: "?v \<noteq> cur" using R(1) by auto
  have Gn: "get_num (gScore st') y = (if y = ?v then Num (?b + w) else get_num (gScore st) y)"
    for y by (simp add: G' get_num_update cur)
  have gv: "gval st' y = (if y = ?v then ?b + w else gval st y)" for y
    by (simp add: gval_def Gn)
  have Qs: "set (pq_a st') = insert (Num (?b + w + h_val g en ?v), ?v) (set (pq_a st))"
    by (simp add: Q' cur hv set_enqueue)
  have "scores_ok g em s st'"
    unfolding scores_ok_def
  proof (intro conjI ballI allI impI)
    show "graph_a st' = g" using gr' S(1) by simp
    show "fst ` set (gScore st') = ?K" using vK S(2) by (simp add: G' keys_update insert_absorb)
    show "fst ` set (previous_a st') = ?K" using vK S(3) by (simp add: P' keys_update insert_absorb)
    show "get_num (gScore st') y \<noteq> NaN" if "y \<in> ?K" for y using S(4) [OF that] by (simp add: Gn)
    show "route g em s y a" if "get_num (gScore st') y = Num a" for y a
    proof (cases "y = ?v")
      case True
      with that have "a = ?b + w" by (simp add: Gn)
      with route_hop [OF S(5) [OF cur] hop] True show ?thesis by simp
    next
      case False
      with that S(5) show ?thesis by (simp add: Gn)
    qed
    from S(6) obtain a where a: "a \<le> 0" "get_num (gScore st) s = Num a" by blast
    show "\<exists>a\<le>0. get_num (gScore st') s = Num a"
    proof (cases "s = ?v")
      case True
      with a(2) have "get_num (gScore st) ?v = Num a" by simp
      from old [OF this] a(1) have "?b + w \<le> 0" by linarith
      with True show ?thesis by (simp add: Gn)
    next
      case False
      with a show ?thesis by (simp add: Gn)
    qed
  qed
  moreover have "queue_ok g en st'"
    unfolding queue_ok_def
  proof (intro conjI ballI allI impI)
    show "heap_ok (pq_a st')" using Qd(1) by (simp add: Q' cur hv heap_ok_enqueue)
  next
    fix x
    assume x: "x \<in> set (pq_a st')"
    obtain p y where xp: "x = (p, y)" by (cases x)
    have "\<exists>a b. p = Num (a + h_val g en y) \<and> get_num (gScore st') y = Num b \<and> b \<le> a"
    proof (cases "(p, y) \<in> set (pq_a st)")
      case True
      from Qd(2) [OF this] obtain a b where
        ab: "p = Num (a + h_val g en y)" "get_num (gScore st) y = Num b" "b \<le> a" by blast
      show ?thesis
      proof (cases "y = ?v")
        case True
        with ab(2) have "get_num (gScore st) ?v = Num b" by simp
        from old [OF this] ab(3) have "?b + w \<le> a" by linarith
        with ab(1) True show ?thesis by (simp add: Gn)
      next
        case False
        with ab show ?thesis by (simp add: Gn)
      qed
    next
      case False
      with x xp Qs have "p = Num (?b + w + h_val g en ?v)" "y = ?v" by simp_all
      then show ?thesis by (simp add: Gn)
    qed
    then show "case x of (p, v) \<Rightarrow>
        \<exists>a b. p = Num (a + h_val g en v) \<and> get_num (gScore st') v = Num b \<and> b \<le> a"
      by (simp add: xp)
  next
    fix y a
    assume ya: "y \<notin> set (visited_a st') \<and> get_num (gScore st') y = Num a"
    show "(Num (a + h_val g en y), y) \<in> set (pq_a st')"
    proof (cases "y = ?v")
      case True
      with ya show ?thesis by (simp add: Gn Qs)
    next
      case False
      with ya Qd(3) [of y a] show ?thesis by (simp add: Gn Qs V')
    qed
  qed
  moreover have "settled_ok st'"
    unfolding settled_ok_def
  proof (intro conjI ballI allI impI)
    show "distinct (visited_a st')" using Sd(1) by (simp add: V')
    show "\<exists>a. get_num (gScore st') u = Num a" if "u \<in> set (visited_a st')" for u
      using that Sd(2) [of u] vV by (auto simp: Gn V')
    show "rank (visited_a st') u < rank (visited_a st') y"
      if "map_of (previous_a st') y = Some (Some u)" for y u
    proof (cases "y = ?v")
      case True
      with that have "u = cur" by (simp add: P' update_conv')
      with True vV R(1) show ?thesis
        using rank_less_iff [of "visited_a st" cur] by (simp add: V' rank_notin)
    next
      case False
      with that Sd(3) [of y u] show ?thesis by (simp add: P' update_conv' V')
    qed
  qed
  moreover have "relaxing g en em cur (insert e D) st'"
  proof (rule relaxingI)
    show "cur \<in> set (visited_a st')" using R(1) by (simp add: V')
    show "relaxed_from g em (set (visited_a st') - {cur}) st'"
      unfolding relaxed_from_def
    proof (intro ballI allI impI)
      fix u y w' a
      assume u: "u \<in> set (visited_a st') - {cur}"
        and h: "get_num (gScore st') u = Num a \<and> hop g em u y w'"
      from u vV have uv: "u \<noteq> ?v" by (auto simp: V')
      with h have "get_num (gScore st) u = Num a" by (simp add: Gn)
      have "u \<in> set (visited_a st) - {cur}" "hop g em u y w'" using u h by (simp_all add: V')
      from relaxed_fromD [OF R(2) this(1) \<open>get_num (gScore st) u = Num a\<close> this(2)]
      obtain b' where b': "get_num (gScore st) y = Num b'" "b' \<le> a + w'" by blast
      show "\<exists>b. get_num (gScore st') y = Num b \<and> b \<le> a + w'"
      proof (cases "y = ?v")
        case True
        with b'(1) have "get_num (gScore st) ?v = Num b'" by simp
        from old [OF this] b'(2) have "?b + w \<le> a + w'" by linarith
        with True show ?thesis by (simp add: Gn)
      next
        case False
        with b' show ?thesis by (simp add: Gn)
      qed
    qed
    show "get_num (gScore st') y = Num (gval st' y)" if "y \<in> set (visited_a st')" for y
      using that R(3) [of y] by (simp add: Gn gv V')
    show "gval st' y + h_val g en y \<le> gval st' cur + h_val g en cur"
      if "y \<in> set (visited_a st')" for y
      using that R(4) [of y] vV vcur by (auto simp: gv V')
    show "gval st' cur + h_val g en cur \<le> key x" if "x \<in> set (pq_a st')" for x
      using that R(5) [of x] cons vcur by (auto simp: gv Qs)
    show "get_num (gScore st') (to_edge e') = Num (gval st' (to_edge e')) \<and>
          gval st' (to_edge e') \<le> gval st' cur + w'"
      if "e' \<in> insert e D" "effective_weight e' em = Some w'" "to_edge e' \<in> ?K" for e' w'
    proof (cases "to_edge e' = ?v")
      case True
      have "?b + w \<le> ?b + w'"
      proof (cases "e' = e")
        case True
        with that(2) w show ?thesis by simp
      next
        case False
        with that have "e' \<in> D" by simp
        from R(6) [OF this that(2,3)] True
        have "get_num (gScore st) ?v = Num (gval st ?v)" by simp
        from old [OF this] R(7) [OF \<open>e' \<in> D\<close> that(2,3)] True
        show ?thesis by simp
      qed
      with True vcur show ?thesis by (simp add: Gn gv)
    next
      case False
      with that w have "e' \<in> D" by auto
      from R(6) [OF this that(2,3)] R(7) [OF this that(2,3)] False vcur
      show ?thesis by (simp add: Gn gv)
    qed
  qed
  ultimately show ?thesis by (simp add: mid_inv_def)
qed

lemma relax_a_mid_inv:
  assumes "mid_inv g en em s cur D st" "consistent g en em" "e \<in> set (edges_of g cur)"
  shows "mid_inv g en em s cur (insert e D) (relax_a en em cur e st)"
proof (cases rule: relax_a_cases [of en em cur e st])
  case skip
  with mid_inv_skip [OF assms(1), of e] show ?thesis by simp
next
  case (update w)
  show ?thesis
    by (rule mid_inv_update [OF assms update(1,2,3,4,5)]) simp_all
qed

lemma fold_relax_a_mid_inv:
  assumes "mid_inv g en em s cur D st" "consistent g en em" "set es \<subseteq> set (edges_of g cur)"
  shows "mid_inv g en em s cur (D \<union> set es) (fold (relax_a en em cur) es st)"
  using assms
proof (induction es arbitrary: D st)
  case Nil
  then show ?case by simp
next
  case (Cons e es)
  have "mid_inv g en em s cur (insert e D) (relax_a en em cur e st)"
    using Cons.prems by (intro relax_a_mid_inv) simp_all
  from Cons.IH [OF this Cons.prems(2)] Cons.prems(3) show ?case by simp
qed

subsection \<open>The first state\<close>

lemma map_of_fold_update:
  "map_of (fold (\<lambda>(k, _) m. AList.update k (f k) m) xs acc) v
   = (if v \<in> fst ` set xs then Some (f v) else map_of acc v)"
proof (induction xs arbitrary: acc)
  case Nil
  show ?case by simp
next
  case (Cons x xs)
  obtain a b where x: "x = (a, b)" by (cases x)
  show ?case by (simp add: x Cons.IH update_conv')
qed

lemma get_num_init_distances:
  "get_num (init_distances g s) v
   = (if v \<in> fst ` set (nodes g) then (if v = s then Num 0 else Infinity) else NaN)"
  unfolding init_distances_def get_num_def
  using map_of_fold_update [of "\<lambda>id. if id = s then Num 0 else Infinity" "nodes g" "[]" v]
  by simp

lemma get_num_init_fScore:
  "s \<in> fst ` set (nodes g) \<Longrightarrow> get_num (init_fScore g en s) s = heuristic g en s"
  unfolding init_fScore_def get_num_def
  using map_of_fold_update [of "\<lambda>id. if id = s then heuristic g en s else Infinity" "nodes g" "[]" s]
  by simp

lemma heap_ok_single: "heap_ok [(Num r, v)]"
  using heap_ok_enqueue [OF heap_ok_Nil, of v r] by simp

lemma loop_inv_init:
  assumes s: "s \<in> fst ` set (nodes g)"
  shows "loop_inv g en em s (aStar_init g en s)"
proof -
  let ?st = "aStar_init g en s"
  have G: "gScore ?st = init_distances g s" and P: "previous_a ?st = init_previous g"
    and V: "visited_a ?st = []" and gr: "graph_a ?st = g"
    by (simp_all add: aStar_init_def Let_def)
  have Q: "pq_a ?st = [(Num (h_val g en s), s)]"
    using s by (simp add: aStar_init_def Let_def get_num_init_fScore heuristic_node)
  have "scores_ok g em s ?st"
    unfolding scores_ok_def G P gr
    using s by (auto simp: get_num_init_distances intro: route_start split: if_splits)
  moreover have "queue_ok g en ?st"
    unfolding queue_ok_def G Q V
    using s by (auto simp: get_num_init_distances heap_ok_single split: if_splits)
  moreover have "settled_ok ?st"
  proof -
    have "map_of (init_previous g) v \<noteq> Some (Some u)" for v u
      using links_init_previous [of g] by (auto simp: links_def)
    then show ?thesis unfolding settled_ok_def P V by simp
  qed
  moreover have "relaxed_from g em (set (visited_a ?st)) ?st" by (simp add: relaxed_from_def V)
  moreover have "front_ok g en ?st" by (simp add: front_ok_def V)
  ultimately show ?thesis by (simp add: loop_inv_def)
qed

subsection \<open>Taking an entry from the queue\<close>

lemma loop_inv_stale:
  assumes inv: "loop_inv g en em s st" and ne: "pq_a st \<noteq> []"
    and d: "dequeue (pq_a st) = (Some c, pq')" and c: "c \<in> set (visited_a st)"
  shows "loop_inv g en em s (st\<lparr>pq_a := pq'\<rparr>)"
proof -
  from inv have sc: "scores_ok g em s st" and qo: "queue_ok g en st" and so: "settled_ok st"
    and rf: "relaxed_from g em (set (visited_a st)) st" and fo: "front_ok g en st"
    by (simp_all add: loop_inv_def)
  note Qd = queue_okD [OF qo]
  from dequeue_min [OF Qd(1) ne d] obtain p where
    p: "set (pq_a st) = insert (p, c) (set pq')" "heap_ok pq'" by blast
  have "scores_ok g em s (st\<lparr>pq_a := pq'\<rparr>)" using sc by (simp add: scores_ok_def)
  moreover have "queue_ok g en (st\<lparr>pq_a := pq'\<rparr>)"
    unfolding queue_ok_def
  proof (intro conjI ballI allI impI)
    show "heap_ok (pq_a (st\<lparr>pq_a := pq'\<rparr>))" using p(2) by simp
  next
    fix x
    assume "x \<in> set (pq_a (st\<lparr>pq_a := pq'\<rparr>))"
    then have x: "x \<in> set (pq_a st)" using p(1) by simp
    obtain q y where xq: "x = (q, y)" by (cases x)
    from Qd(2) [of q y] x xq
    show "case x of (p, v) \<Rightarrow> \<exists>a b. p = Num (a + h_val g en v)
            \<and> get_num (gScore (st\<lparr>pq_a := pq'\<rparr>)) v = Num b \<and> b \<le> a"
      by simp
  next
    fix v a
    assume v: "v \<notin> set (visited_a (st\<lparr>pq_a := pq'\<rparr>))
               \<and> get_num (gScore (st\<lparr>pq_a := pq'\<rparr>)) v = Num a"
    then have "(Num (a + h_val g en v), v) \<in> set (pq_a st)" using Qd(3) [of v a] by simp
    moreover have "v \<noteq> c" using v c by auto
    ultimately show "(Num (a + h_val g en v), v) \<in> set (pq_a (st\<lparr>pq_a := pq'\<rparr>))"
      using p(1) by auto
  qed
  moreover have "settled_ok (st\<lparr>pq_a := pq'\<rparr>)" using so by (simp add: settled_ok_def)
  moreover have "relaxed_from g em (set (visited_a (st\<lparr>pq_a := pq'\<rparr>))) (st\<lparr>pq_a := pq'\<rparr>)"
    using rf by (simp add: relaxed_from_def)
  moreover have "front_ok g en (st\<lparr>pq_a := pq'\<rparr>)"
    using fo p(1) unfolding front_ok_def by simp
  ultimately show ?thesis by (simp add: loop_inv_def)
qed

text \<open>The entry taken for an unvisited node carries the node's current score.\<close>

lemma loop_inv_pop:
  assumes inv: "loop_inv g en em s st" and ne: "pq_a st \<noteq> []"
    and d: "dequeue (pq_a st) = (Some c, pq')" and c: "c \<notin> set (visited_a st)"
  shows "get_num (gScore st) c = Num (gval st c)"
    and "set (pq_a st) = insert (Num (gval st c + h_val g en c), c) (set pq')"
    and "heap_ok pq'"
    and "\<And>e. e \<in> set (pq_a st) \<Longrightarrow> gval st c + h_val g en c \<le> key e"
proof -
  from inv have qo: "queue_ok g en st" by (simp add: loop_inv_def)
  note Qd = queue_okD [OF qo]
  from dequeue_min [OF Qd(1) ne d] obtain p where
    p: "(p, c) \<in> set (pq_a st)" "set (pq_a st) = insert (p, c) (set pq')" "heap_ok pq'"
      "\<And>e. e \<in> set (pq_a st) \<Longrightarrow> key (p, c) \<le> key e" by blast
  from Qd(2) [OF p(1)] obtain a b where
    ab: "p = Num (a + h_val g en c)" "get_num (gScore st) c = Num b" "b \<le> a" by blast
  from p(4) [OF Qd(3) [OF c ab(2)]] ab(1) have "a \<le> b" by simp
  with ab(3) have "a = b" by simp
  with ab have pb: "p = Num (b + h_val g en c)" by simp
  have gb: "gval st c = b" using ab(2) by (rule gval_Num)
  show "get_num (gScore st) c = Num (gval st c)" using ab(2) gb by simp
  show "set (pq_a st) = insert (Num (gval st c + h_val g en c), c) (set pq')"
    using p(2) pb gb by simp
  show "heap_ok pq'" by (rule p(3))
  show "gval st c + h_val g en c \<le> key e" if "e \<in> set (pq_a st)" for e
    using p(4) [OF that] pb gb by simp
qed

lemma loop_inv_visit:
  assumes inv: "loop_inv g en em s st" and ne: "pq_a st \<noteq> []"
    and d: "dequeue (pq_a st) = (Some c, pq')" and c: "c \<notin> set (visited_a st)"
  shows "mid_inv g en em s c {} (st\<lparr>pq_a := pq', visited_a := visited_a st @ [c]\<rparr>)"
proof -
  let ?st = "st\<lparr>pq_a := pq', visited_a := visited_a st @ [c]\<rparr>"
  from inv have sc: "scores_ok g em s st" and qo: "queue_ok g en st" and so: "settled_ok st"
    and rf: "relaxed_from g em (set (visited_a st)) st" and fo: "front_ok g en st"
    by (simp_all add: loop_inv_def)
  note Qd = queue_okD [OF qo] and Sd = settled_okD [OF so]
  note pop = loop_inv_pop [OF inv ne d c]
  have gv: "gval ?st = gval st" by (simp add: gval_def fun_eq_iff)
  have sub: "set pq' \<subseteq> set (pq_a st)" using pop(2) by auto
  have "scores_ok g em s ?st" using sc by (simp add: scores_ok_def)
  moreover have "queue_ok g en ?st"
    unfolding queue_ok_def
  proof (intro conjI ballI allI impI)
    show "heap_ok (pq_a ?st)" using pop(3) by simp
  next
    fix x
    assume "x \<in> set (pq_a ?st)"
    then have x: "x \<in> set (pq_a st)" using sub by auto
    obtain q y where xq: "x = (q, y)" by (cases x)
    from Qd(2) [of q y] x xq
    show "case x of (p, v) \<Rightarrow> \<exists>a b. p = Num (a + h_val g en v)
            \<and> get_num (gScore ?st) v = Num b \<and> b \<le> a"
      by simp
  next
    fix v a
    assume v: "v \<notin> set (visited_a ?st) \<and> get_num (gScore ?st) v = Num a"
    then have "(Num (a + h_val g en v), v) \<in> set (pq_a st)" using Qd(3) [of v a] by simp
    moreover have "v \<noteq> c" using v by auto
    ultimately show "(Num (a + h_val g en v), v) \<in> set (pq_a ?st)"
      using pop(2) by auto
  qed
  moreover have "settled_ok ?st"
    unfolding settled_ok_def
  proof (intro conjI ballI allI impI)
    show "distinct (visited_a ?st)" using Sd(1) c by simp
    show "\<exists>a. get_num (gScore ?st) u = Num a" if "u \<in> set (visited_a ?st)" for u
      using that Sd(2) [of u] pop(1) by auto
    show "rank (visited_a ?st) u < rank (visited_a ?st) v"
      if "map_of (previous_a ?st) v = Some (Some u)" for v u
      using that Sd(3) [of v u] by (simp add: rank_append_mono)
  qed
  moreover have "relaxing g en em c {} ?st"
  proof (rule relaxingI)
    show "c \<in> set (visited_a ?st)" by simp
    have "set (visited_a ?st) - {c} = set (visited_a st)" using c by auto
    then show "relaxed_from g em (set (visited_a ?st) - {c}) ?st"
      using rf by (simp add: relaxed_from_def)
    show "get_num (gScore ?st) v = Num (gval ?st v)" if "v \<in> set (visited_a ?st)" for v
    proof (cases "v = c")
      case True
      then show ?thesis using pop(1) by (simp add: gv)
    next
      case False
      with that Sd(2) [of v] obtain a where "get_num (gScore st) v = Num a" by auto
      then show ?thesis by (simp add: gv gval_Num)
    qed
    show "gval ?st v + h_val g en v \<le> gval ?st c + h_val g en c"
      if "v \<in> set (visited_a ?st)" for v
    proof (cases "v = c")
      case True
      then show ?thesis by simp
    next
      case False
      with that have vV: "v \<in> set (visited_a st)" by simp
      with Sd(2) [of v] obtain a where a: "get_num (gScore st) v = Num a" by auto
      have "(Num (gval st c + h_val g en c), c) \<in> set (pq_a st)" using pop(2) by simp
      from front_okD [OF fo vV a this] show ?thesis by (simp add: gv gval_Num [OF a])
    qed
    show "gval ?st c + h_val g en c \<le> key e" if "e \<in> set (pq_a ?st)" for e
      using that sub pop(4) [of e] by (auto simp: gv)
  qed simp
  ultimately show ?thesis by (simp add: mid_inv_def)
qed

lemma mid_inv_done:
  assumes m: "mid_inv g en em s c (set (edges_of g c)) st"
  shows "loop_inv g en em s st"
proof -
  from m have sc: "scores_ok g em s st" and qo: "queue_ok g en st" and so: "settled_ok st"
    and r: "relaxing g en em c (set (edges_of g c)) st"
    by (simp_all add: mid_inv_def)
  note R = relaxingD [OF r]
  have "relaxed_from g em (set (visited_a st)) st"
    unfolding relaxed_from_def
  proof (intro ballI allI impI)
    fix u v w a
    assume u: "u \<in> set (visited_a st)" and h: "get_num (gScore st) u = Num a \<and> hop g em u v w"
    show "\<exists>b. get_num (gScore st) v = Num b \<and> b \<le> a + w"
    proof (cases "u = c")
      case True
      from h obtain e where e: "e \<in> set (edges_of g c)" "to_edge e = v"
        "effective_weight e em = Some w" and vK: "v \<in> fst ` set (nodes g)"
        unfolding hop_def True by blast
      from R(6) [OF e(1,3)] R(7) [OF e(1,3)] e(2) vK
      have "get_num (gScore st) v = Num (gval st v)" "gval st v \<le> gval st c + w" by simp_all
      moreover have "gval st c = a" using h True by (simp add: gval_Num)
      ultimately show ?thesis by auto
    next
      case False
      with u have "u \<in> set (visited_a st) - {c}" by simp
      from relaxed_fromD [OF R(2) this] h show ?thesis by blast
    qed
  qed
  moreover have "front_ok g en st"
    unfolding front_ok_def
  proof (intro ballI allI impI)
    fix u a e
    assume u: "u \<in> set (visited_a st)" and a: "get_num (gScore st) u = Num a"
      and e: "e \<in> set (pq_a st)"
    from R(4) [OF u] R(5) [OF e] gval_Num [OF a] show "a + h_val g en u \<le> key e" by simp
  qed
  ultimately show ?thesis using sc qo so by (simp add: loop_inv_def)
qed

lemma loop_inv_relaxed:
  assumes inv: "loop_inv g en em s st" and con: "consistent g en em" and ne: "pq_a st \<noteq> []"
    and d: "dequeue (pq_a st) = (Some c, pq')" and c: "c \<notin> set (visited_a st)"
  shows "loop_inv g en em s
           (fold (relax_a en em c) (edges_of (graph_a st) c)
              (st\<lparr>pq_a := pq', visited_a := visited_a st @ [c]\<rparr>))"
proof -
  from inv have gr: "graph_a st = g" by (simp add: loop_inv_def scores_ok_def)
  from fold_relax_a_mid_inv [OF loop_inv_visit [OF inv ne d c] con, of "edges_of g c"]
  show ?thesis by (simp add: gr mid_inv_done)
qed

subsection \<open>Every route is bounded from below\<close>

lemma route_in_nodes:
  "route g em s v a \<Longrightarrow> s \<in> fst ` set (nodes g) \<Longrightarrow> v \<in> fst ` set (nodes g)"
  by (induction rule: route.induct) (auto simp: hop_def)

lemma lower_bound:
  assumes inv: "loop_inv g en em s st" and con: "consistent g en em"
    and s: "s \<in> fst ` set (nodes g)"
  shows "route g em s v a \<Longrightarrow>
         (v \<in> set (visited_a st) \<and> (\<exists>b. get_num (gScore st) v = Num b \<and> b \<le> a))
         \<or> (\<exists>e \<in> set (pq_a st). key e \<le> a + h_val g en v)"
proof (induction rule: route.induct)
  case route_start
  from inv have sc: "scores_ok g em s st" and qo: "queue_ok g en st"
    by (simp_all add: loop_inv_def)
  from scores_okD(6) [OF sc] obtain a0 where a0: "a0 \<le> 0" "get_num (gScore st) s = Num a0"
    by blast
  show ?case
  proof (cases "s \<in> set (visited_a st)")
    case True
    with a0 show ?thesis by auto
  next
    case False
    from queue_okD(3) [OF qo False a0(2)]
    have "(Num (a0 + h_val g en s), s) \<in> set (pq_a st)" .
    moreover have "key (Num (a0 + h_val g en s), s) \<le> 0 + h_val g en s" using a0(1) by simp
    ultimately show ?thesis by blast
  qed
next
  case (route_hop u a v w)
  from inv have qo: "queue_ok g en st" and rf: "relaxed_from g em (set (visited_a st)) st"
    by (simp_all add: loop_inv_def)
  have uK: "u \<in> fst ` set (nodes g)" using route_in_nodes [OF route_hop.hyps(1) s] .
  have hc: "h_val g en u \<le> w + h_val g en v" by (rule consistentD [OF con uK route_hop.hyps(2)])
  from route_hop.IH show ?case
  proof
    assume "u \<in> set (visited_a st) \<and> (\<exists>b. get_num (gScore st) u = Num b \<and> b \<le> a)"
    then obtain b where b: "u \<in> set (visited_a st)" "get_num (gScore st) u = Num b" "b \<le> a"
      by blast
    from relaxed_fromD [OF rf b(1,2) route_hop.hyps(2)] obtain b' where
      b': "get_num (gScore st) v = Num b'" "b' \<le> b + w" by blast
    show ?thesis
    proof (cases "v \<in> set (visited_a st)")
      case True
      moreover have "b' \<le> a + w" using b'(2) b(3) by simp
      ultimately show ?thesis using b'(1) by blast
    next
      case False
      from queue_okD(3) [OF qo False b'(1)]
      have "(Num (b' + h_val g en v), v) \<in> set (pq_a st)" .
      moreover have "key (Num (b' + h_val g en v), v) \<le> a + w + h_val g en v"
        using b'(2) b(3) by simp
      ultimately show ?thesis by blast
    qed
  next
    assume "\<exists>e \<in> set (pq_a st). key e \<le> a + h_val g en u"
    then obtain e where e: "e \<in> set (pq_a st)" "key e \<le> a + h_val g en u" by blast
    have "key e \<le> a + w + h_val g en v" using e(2) hc by simp
    with e(1) show ?thesis by blast
  qed
qed

subsection \<open>The state the search ends in\<close>

definition final_ok :: "Graph \<Rightarrow> bool \<Rightarrow> string \<Rightarrow> string \<Rightarrow> aStar_state \<Rightarrow> bool" where
  "final_ok g em s d st =
     (scores_ok g em s st \<and>
      (\<forall>v u. map_of (previous_a st) v = Some (Some u)
          \<longrightarrow> rank (visited_a st) u < rank (visited_a st) v) \<and>
      (\<forall>a. route g em s d a \<longrightarrow> (\<exists>b. get_num (gScore st) d = Num b \<and> b \<le> a)))"

lemma h_val_end: "map_of (nodes g) d = Some en \<Longrightarrow> h_val g en d = 0"
  by (simp add: h_val_def heuristic_def)

lemma final_ok_empty:
  assumes inv: "loop_inv g en em s st" and con: "consistent g en em"
    and s: "s \<in> fst ` set (nodes g)" and e: "pq_a st = []"
  shows "final_ok g em s d st"
proof -
  from inv have sc: "scores_ok g em s st" and so: "settled_ok st"
    by (simp_all add: loop_inv_def)
  have "\<exists>b. get_num (gScore st) d = Num b \<and> b \<le> a" if "route g em s d a" for a
    using lower_bound [OF inv con s that] e by auto
  then show ?thesis using sc settled_okD(3) [OF so] unfolding final_ok_def by blast
qed

lemma final_ok_found:
  assumes inv: "loop_inv g en em s st" and con: "consistent g en em"
    and s: "s \<in> fst ` set (nodes g)" and en: "map_of (nodes g) d = Some en"
    and ne: "pq_a st \<noteq> []" and dq: "dequeue (pq_a st) = (Some d, pq')"
    and d: "d \<notin> set (visited_a st)"
  shows "final_ok g em s d (st\<lparr>pq_a := pq', visited_a := visited_a st @ [d]\<rparr>)"
proof -
  let ?st = "st\<lparr>pq_a := pq', visited_a := visited_a st @ [d]\<rparr>"
  from inv have sc: "scores_ok g em s st" and so: "settled_ok st"
    by (simp_all add: loop_inv_def)
  note pop = loop_inv_pop [OF inv ne dq d]
  have h0: "h_val g en d = 0" by (rule h_val_end [OF en])
  have "scores_ok g em s ?st" using sc by (simp add: scores_ok_def)
  moreover have "rank (visited_a ?st) u < rank (visited_a ?st) v"
    if "map_of (previous_a ?st) v = Some (Some u)" for v u
    using that settled_okD(3) [OF so, of v u] by (simp add: rank_append_mono)
  moreover have "\<exists>b. get_num (gScore ?st) d = Num b \<and> b \<le> a" if "route g em s d a" for a
  proof -
    from lower_bound [OF inv con s that] d obtain e where
      e: "e \<in> set (pq_a st)" "key e \<le> a + h_val g en d" by blast
    from pop(4) [OF e(1)] e(2) h0 have "gval st d \<le> a" by simp
    with pop(1) show ?thesis by simp
  qed
  ultimately show ?thesis unfolding final_ok_def by blast
qed

lemma aStar_loop_final:
  assumes con: "consistent g en em" and s: "s \<in> fst ` set (nodes g)"
    and en: "map_of (nodes g) d = Some en"
  shows "final_ok g em s d (aStar_loop en d em (aStar_init g en s))"
proof (rule aStar_loop_rule [where I = "loop_inv g en em s"])
  show "loop_inv g en em s (aStar_init g en s)" by (rule loop_inv_init [OF s])
qed (auto intro: loop_inv_stale loop_inv_relaxed final_ok_empty final_ok_found
      simp: con s en)

subsection \<open>The distance A* returns\<close>

text \<open>
  The results of this and of the next section are about the exact sums of the model.
  Doubles round: with weights near \<open>2^53\<close> two routes of different weight can get equal
  sums, and the results need not carry over to such graphs.
\<close>

text \<open>
  \<open>shortest g em s d x\<close>: \<open>x\<close> is what a call reports for the least weight of a route
  from \<open>s\<close> to \<open>d\<close>: that weight, with \<open>Infinity\<close> in place of \<open>0\<close> and when there is
  no route.
\<close>

definition shortest :: "Graph \<Rightarrow> bool \<Rightarrow> string \<Rightarrow> string \<Rightarrow> number \<Rightarrow> bool" where
  "shortest g em s d x =
     ((\<exists>a. route g em s d a \<and> (\<forall>c. route g em s d c \<longrightarrow> a \<le> c) \<and>
           x = (if a = 0 then Infinity else Num a))
      \<or> ((\<forall>a. \<not> route g em s d a) \<and> x = Infinity))"

lemma shortest_unique:
  assumes "shortest g em s d x" "shortest g em s d y"
  shows "x = y"
proof -
  have eq: "a = b" if "route g em s d a" "\<forall>c. route g em s d c \<longrightarrow> a \<le> c"
    "route g em s d b" "\<forall>c. route g em s d c \<longrightarrow> b \<le> c" for a b :: real
  proof -
    from that have "a \<le> b" "b \<le> a" by blast+
    then show ?thesis by simp
  qed
  from assms show ?thesis unfolding shortest_def
    by (elim disjE exE conjE) (auto dest: eq)
qed

lemma final_ok_shortest:
  assumes f: "final_ok g em s d st" and d: "d \<in> fst ` set (nodes g)"
  shows "shortest g em s d (or_Infinity (map_of (gScore st) d))"
proof -
  from f have sc: "scores_ok g em s st"
    and lb: "\<And>a. route g em s d a \<Longrightarrow> \<exists>b. get_num (gScore st) d = Num b \<and> b \<le> a"
    unfolding final_ok_def by blast+
  from scores_okD(2) [OF sc] d obtain x where x: "map_of (gScore st) d = Some x"
    by (metis domD dom_map_of_conv_image_fst)
  then have gx: "get_num (gScore st) d = x" by (simp add: get_num_def)
  show ?thesis
  proof (cases x)
    case (Num b)
    with gx have r: "route g em s d b" using scores_okD(5) [OF sc] by simp
    have "b \<le> c" if "route g em s d c" for c using lb [OF that] gx Num by simp
    with r have "\<exists>a. route g em s d a \<and> (\<forall>c. route g em s d c \<longrightarrow> a \<le> c) \<and>
           or_Infinity (Some x) = (if a = 0 then Infinity else Num a)"
      by (intro exI [of _ b]) (simp add: or_Infinity_def Num)
    then show ?thesis by (simp add: shortest_def x)
  next
    case Infinity
    have "\<not> route g em s d a" for a using lb [of a] gx Infinity by auto
    then show ?thesis by (simp add: shortest_def x Infinity or_Infinity_def)
  next
    case NaN
    with gx scores_okD(4) [OF sc d] show ?thesis by simp
  qed
qed

lemma final_ok_reconstruct:
  assumes "final_ok g em s d st"
  shows "\<exists>y. reconstruct (previous_a st) cur pth = Some y"
  using assms unfolding final_ok_def by (intro reconstruct_returns [of _ "visited_a st"]) blast

lemma aStar_shortest:
  assumes con: "consistent g en em" and s: "map_of (nodes g) s = Some sn"
    and en: "map_of (nodes g) d = Some en"
  shows "\<exists>r. aStar g s d em = Some r \<and> shortest g em s d (distance r)"
proof -
  let ?st = "aStar_loop en d em (aStar_init g en s)"
  have sK: "s \<in> fst ` set (nodes g)" and dK: "d \<in> fst ` set (nodes g)"
    using s en by (auto dest: map_of_SomeD intro: rev_image_eqI)
  have f: "final_ok g em s d ?st" by (rule aStar_loop_final [OF con sK en])
  from final_ok_reconstruct [OF f, of "Some d" "[]"] obtain y where
    y: "reconstruct (previous_a ?st) (Some d) [] = Some y" by blast
  have "aStar g s d em = Some \<lparr>path = path_from s y,
          distance = or_Infinity (map_of (gScore ?st) d), visited = visited_a ?st\<rparr>"
    by (simp add: aStar_def aStar_call_def s en y Let_def)
  with final_ok_shortest [OF f dK] show ?thesis by simp
qed

section \<open>Dijkstra's algorithm as A* without a heuristic\<close>

text \<open>The graph with every node moved to the origin: there the heuristic is \<open>0\<close>.\<close>

definition flattened :: "Graph \<Rightarrow> Graph" where
  "flattened g = g\<lparr>nodes := map (\<lambda>(k, n). (k, n\<lparr>x_node := 0, y_node := 0\<rparr>)) (nodes g)\<rparr>"

definition as_aStar :: "dijkstra_state \<Rightarrow> aStar_state" where
  "as_aStar st =
     \<lparr>graph_a = flattened (graph_d st), gScore = distances_d st, fScore = distances_d st,
      previous_a = previous_d st, visited_a = visited_d st, pq_a = pq_d st\<rparr>"

lemma flattened_keys [simp]: "fst ` set (nodes (flattened g)) = fst ` set (nodes g)"
  by (force simp: flattened_def)

lemma flattened_edges [simp]: "edges (flattened g) = edges g"
  by (simp add: flattened_def)

lemma edges_of_flattened [simp]: "edges_of (flattened g) c = edges_of g c"
  by (simp add: edges_of_def)

lemma map_of_flattened:
  "map_of (nodes (flattened g)) v
   = map_option (\<lambda>n. n\<lparr>x_node := 0, y_node := 0\<rparr>) (map_of (nodes g) v)"
  by (simp add: flattened_def map_of_map)

lemma heuristic_flattened:
  assumes "x_node en = 0" "y_node en = 0" "v \<in> fst ` set (nodes g)"
  shows "heuristic (flattened g) en v = Num 0"
proof -
  from assms(3) obtain n where "map_of (nodes g) v = Some n"
    by (metis domD dom_map_of_conv_image_fst)
  then show ?thesis by (simp add: heuristic_def map_of_flattened assms(1,2))
qed

lemma fold_flattened:
  "fold (\<lambda>(k, _) m. F k m) (map (\<lambda>(k, n). (k, f n)) xs) acc = fold (\<lambda>(k, _) m. F k m) xs acc"
  by (induction xs arbitrary: acc) (auto split: prod.splits)

lemma init_distances_flattened [simp]: "init_distances (flattened g) s = init_distances g s"
  unfolding init_distances_def flattened_def
  using fold_flattened [of "\<lambda>id. AList.update id (if id = s then Num 0 else Infinity)"] by simp

lemma init_previous_flattened [simp]: "init_previous (flattened g) = init_previous g"
  unfolding init_previous_def flattened_def
  using fold_flattened [of "\<lambda>id. AList.update id None"] by simp

lemma init_fScore_flattened:
  assumes "x_node en = 0" "y_node en = 0" "s \<in> fst ` set (nodes g)"
  shows "init_fScore (flattened g) en s = init_distances g s"
proof -
  have "init_fScore (flattened g) en s = init_distances (flattened g) s"
    by (simp add: init_fScore_def init_distances_def heuristic_flattened [OF assms] cong: if_cong)
  then show ?thesis by simp
qed

lemma num_less_Num: "num_less t x \<Longrightarrow> \<exists>r. t = Num r"
  by (cases t; cases x) simp_all

lemma relax_as_aStar:
  assumes en: "x_node en = 0" "y_node en = 0"
    and keys: "fst ` set (distances_d st) = fst ` set (nodes (graph_d st))"
  shows "relax_a en em c e (as_aStar st) = as_aStar (relax_d em c e st)"
proof (cases "effective_weight e em")
  case None
  then show ?thesis by (simp add: relax_a_def relax_d_def edge_cost_a_rule edge_cost_d_rule)
next
  case (Some w)
  let ?t = "num_add (get_num (distances_d st) c) (Num w)"
  show ?thesis
  proof (cases "num_less ?t (get_num (distances_d st) (to_edge e))")
    case False
    then show ?thesis
      by (simp add: relax_a_def relax_d_def edge_cost_a_rule edge_cost_d_rule Some as_aStar_def)
  next
    case True
    from num_less_Num [OF True] obtain r where r: "?t = Num r" by blast
    from get_num_less_key [OF True] keys
    have "to_edge e \<in> fst ` set (nodes (graph_d st))" by simp
    from heuristic_flattened [OF en this]
    have h: "heuristic (flattened (graph_d st)) en (to_edge e) = Num 0" .
    have "num_add ?t (Num 0) = ?t" by (simp add: r)
    with True h show ?thesis
      by (simp add: relax_a_def relax_d_def edge_cost_a_rule edge_cost_d_rule Some as_aStar_def
            get_num_update Let_def)
  qed
qed

lemma fold_relax_as_aStar:
  assumes en: "x_node en = 0" "y_node en = 0"
  shows "fst ` set (distances_d st) = fst ` set (nodes (graph_d st)) \<Longrightarrow>
         fold (relax_a en em c) es (as_aStar st) = as_aStar (fold (relax_d em c) es st)"
proof (induction es arbitrary: st)
  case Nil
  show ?case by simp
next
  case (Cons e es)
  have "fst ` set (distances_d (relax_d em c e st)) = fst ` set (nodes (graph_d (relax_d em c e st)))"
    using Cons.prems by simp
  from Cons.IH [OF this] show ?case by (simp add: relax_as_aStar [OF en Cons.prems])
qed

lemma as_aStar_simps [simp]:
  "pq_a (as_aStar st) = pq_d st" "visited_a (as_aStar st) = visited_d st"
  "graph_a (as_aStar st) = flattened (graph_d st)" "gScore (as_aStar st) = distances_d st"
  "previous_a (as_aStar st) = previous_d st"
  "(as_aStar st)\<lparr>pq_a := q\<rparr> = as_aStar (st\<lparr>pq_d := q\<rparr>)"
  "(as_aStar st)\<lparr>visited_a := v\<rparr> = as_aStar (st\<lparr>visited_d := v\<rparr>)"
  by (simp_all add: as_aStar_def)

lemma aStar_loop_as_aStar:
  "fst ` set (distances_d st) = fst ` set (nodes (graph_d st)) \<Longrightarrow>
   x_node en = 0 \<Longrightarrow> y_node en = 0 \<Longrightarrow>
   aStar_loop en d em (as_aStar st) = as_aStar (dijkstra_loop d em st)"
proof (induction d em st rule: dijkstra_loop.induct)
  case (1 d em st)
  note keys = "1.prems"(1) and en = "1.prems"(2,3)
  show ?case
  proof (cases "pq_d st = []")
    case True
    then show ?thesis by (simp add: dijkstra_loop_empty aStar_loop_empty)
  next
    case False
    from dequeue_nonempty [OF False] obtain c pq' where
      dq: "dequeue (pq_d st) = (Some c, pq')" by blast
    have ne: "\<not> isEmpty (pq_d st)" using False by (simp add: isEmpty_def)
    have dq': "(Some c, pq') = dequeue (pq_d st)" using dq by simp
    have False': "pq_a (as_aStar st) \<noteq> []" and dd: "dequeue (pq_a (as_aStar st)) = (Some c, pq')"
      using False dq by simp_all
    show ?thesis
    proof (cases "c \<in> set (visited_d st)")
      case True
      then have True': "c \<in> set (visited_a (as_aStar st))" by simp
      have k1: "fst ` set (distances_d (st\<lparr>pq_d := pq'\<rparr>))
                = fst ` set (nodes (graph_d (st\<lparr>pq_d := pq'\<rparr>)))" using keys by simp
      have "aStar_loop en d em (as_aStar st) = aStar_loop en d em ((as_aStar st)\<lparr>pq_a := pq'\<rparr>)"
        by (rule aStar_loop_stale [OF False' dd True'])
      also have "\<dots> = aStar_loop en d em (as_aStar (st\<lparr>pq_d := pq'\<rparr>))" by simp
      also have "\<dots> = as_aStar (dijkstra_loop d em (st\<lparr>pq_d := pq'\<rparr>))"
        by (rule "1.IH"(1) [OF ne dq' refl True k1 en])
      also have "dijkstra_loop d em (st\<lparr>pq_d := pq'\<rparr>) = dijkstra_loop d em st"
        by (rule dijkstra_loop_stale [OF False dq True, symmetric])
      finally show ?thesis .
    next
      case c: False
      then have c': "c \<notin> set (visited_a (as_aStar st))" by simp
      show ?thesis
      proof (cases "c = d")
        case True
        have "aStar_loop en d em (as_aStar st)
              = (as_aStar st)\<lparr>pq_a := pq', visited_a := visited_a (as_aStar st) @ [d]\<rparr>"
          using False' dd c' unfolding True by (rule aStar_loop_found)
        also have "\<dots> = as_aStar (st\<lparr>pq_d := pq', visited_d := visited_d st @ [d]\<rparr>)" by simp
        also have "st\<lparr>pq_d := pq', visited_d := visited_d st @ [d]\<rparr> = dijkstra_loop d em st"
          using False dq c unfolding True by (rule dijkstra_loop_found [symmetric])
        finally show ?thesis .
      next
        case False
        let ?st1 = "st\<lparr>pq_d := pq', visited_d := visited_d st @ [c]\<rparr>"
        let ?st2 = "fold (relax_d em c) (edges_of (graph_d st) c) ?st1"
        have k1: "fst ` set (distances_d ?st1) = fst ` set (nodes (graph_d ?st1))"
          using keys by simp
        have k2: "fst ` set (distances_d ?st2) = fst ` set (nodes (graph_d ?st2))"
          using keys by simp
        have "aStar_loop en d em (as_aStar st)
              = aStar_loop en d em
                  (fold (relax_a en em c) (edges_of (graph_a (as_aStar st)) c)
                     ((as_aStar st)\<lparr>pq_a := pq', visited_a := visited_a (as_aStar st) @ [c]\<rparr>))"
          by (rule aStar_loop_visit [OF False' dd c' False])
        also have "fold (relax_a en em c) (edges_of (graph_a (as_aStar st)) c)
                     ((as_aStar st)\<lparr>pq_a := pq', visited_a := visited_a (as_aStar st) @ [c]\<rparr>)
                   = as_aStar ?st2"
          using fold_relax_as_aStar [OF en k1, of em c "edges_of (graph_d st) c"] by simp
        also have "aStar_loop en d em (as_aStar ?st2) = as_aStar (dijkstra_loop d em ?st2)"
          by (rule "1.IH"(2) [OF ne dq' refl c False k2 en])
        also have "dijkstra_loop d em ?st2 = dijkstra_loop d em st"
          by (rule dijkstra_loop_visit [OF \<open>pq_d st \<noteq> []\<close> dq c False, symmetric])
        finally show ?thesis .
      qed
    qed
  qed
qed

lemma dijkstra_as_aStar:
  assumes s: "map_of (nodes g) s = Some sn" and d: "map_of (nodes g) d = Some dn"
  shows "dijkstra g s d em = aStar (flattened g) s d em"
proof -
  let ?en = "dn\<lparr>x_node := 0, y_node := 0\<rparr>"
  have sK: "s \<in> fst ` set (nodes g)" using s by (auto dest: map_of_SomeD intro: rev_image_eqI)
  have init: "aStar_init (flattened g) ?en s = as_aStar (dijkstra_init g s)"
    using sK by (simp add: aStar_init_def dijkstra_init_def as_aStar_def Let_def
          init_fScore_flattened get_num_init_distances)
  have "aStar_loop ?en d em (as_aStar (dijkstra_init g s))
        = as_aStar (dijkstra_loop d em (dijkstra_init g s))"
    by (rule aStar_loop_as_aStar) (simp_all add: dijkstra_init_def)
  then show ?thesis
    by (simp add: dijkstra_def dijkstra_call_def aStar_def aStar_call_def map_of_flattened s d
          init Let_def split: option.splits)
qed

subsection \<open>The distance Dijkstra's algorithm returns\<close>

definition nonneg :: "Graph \<Rightarrow> bool \<Rightarrow> bool" where
  "nonneg g em = (\<forall>u v w. u \<in> fst ` set (nodes g) \<and> hop g em u v w \<longrightarrow> 0 \<le> w)"

lemma hop_flattened [simp]: "hop (flattened g) em u v w = hop g em u v w"
  by (simp add: hop_def)

lemma route_mono:
  assumes "route g em s v a" "\<And>u v w. hop g em u v w \<Longrightarrow> hop g' em u v w"
  shows "route g' em s v a"
  using assms by (induction rule: route.induct) (auto intro: route.intros)

lemma route_flattened [simp]: "route (flattened g) em s v a = route g em s v a"
  by (auto intro: route_mono [of "flattened g" em s v a g] route_mono [of g em s v a "flattened g"])

lemma shortest_flattened [simp]: "shortest (flattened g) em s d x = shortest g em s d x"
  by (simp add: shortest_def)

lemma nonneg_consistent:
  assumes "nonneg g em" "x_node en = 0" "y_node en = 0"
  shows "consistent (flattened g) en em"
  unfolding consistent_def
proof (intro allI impI)
  fix u v w
  assume a: "u \<in> fst ` set (nodes (flattened g)) \<and> hop (flattened g) em u v w"
  then have u: "u \<in> fst ` set (nodes g)" and h: "hop g em u v w" by simp_all
  from h have v: "v \<in> fst ` set (nodes g)" by (simp add: hop_def)
  have "0 \<le> w" using assms(1) u h unfolding nonneg_def by blast
  then show "h_val (flattened g) en u \<le> w + h_val (flattened g) en v"
    by (simp add: h_val_def heuristic_flattened [OF assms(2,3)] u v)
qed

lemma dijkstra_shortest:
  assumes nn: "nonneg g em" and s: "map_of (nodes g) s = Some sn"
    and d: "map_of (nodes g) d = Some dn"
  shows "\<exists>r. dijkstra g s d em = Some r \<and> shortest g em s d (distance r)"
proof -
  let ?en = "dn\<lparr>x_node := 0, y_node := 0\<rparr>"
  have "consistent (flattened g) ?en em" by (rule nonneg_consistent [OF nn]) simp_all
  from aStar_shortest [OF this, of s "sn\<lparr>x_node := 0, y_node := 0\<rparr>" d]
  have "\<exists>r. aStar (flattened g) s d em = Some r \<and> shortest (flattened g) em s d (distance r)"
    by (simp add: map_of_flattened s d)
  then show ?thesis by (simp add: dijkstra_as_aStar [OF s d])
qed

subsection \<open>Ids that are not in the node map\<close>

lemma map_of_init_distances:
  "map_of (init_distances g s) v
   = (if v \<in> fst ` set (nodes g) then Some (if v = s then Num 0 else Infinity) else None)"
  unfolding init_distances_def
  using map_of_fold_update [of "\<lambda>id. if id = s then Num 0 else Infinity" "nodes g" "[]" v]
  by simp

lemma or_null_init_previous: "or_null (map_of (init_previous g) d) = None"
proof -
  have "map_of (init_previous g) d \<noteq> Some (Some u)" for u
    using links_init_previous [of g] by (auto simp: links_def)
  then show ?thesis by (auto simp: or_null_def split: option.splits if_splits)
qed

text \<open>From a source that is not a node nothing is ever relaxed.\<close>

definition idle :: "Graph \<Rightarrow> string \<Rightarrow> dijkstra_state \<Rightarrow> bool" where
  "idle g s st =
     (distances_d st = init_distances g s \<and> previous_d st = init_previous g \<and>
      snd ` set (pq_d st) \<subseteq> {s})"

lemma relax_d_NaN: "get_num (distances_d st) c = NaN \<Longrightarrow> relax_d em c e st = st"
  by (simp add: relax_d_def Let_def split: option.splits)

lemma fold_relax_d_NaN:
  "get_num (distances_d st) c = NaN \<Longrightarrow> fold (relax_d em c) es st = st"
  by (induction es) (simp_all add: relax_d_NaN)

lemma dijkstra_loop_idle:
  assumes s: "s \<notin> fst ` set (nodes g)"
  shows "idle g s (dijkstra_loop d em (dijkstra_init g s))"
proof (rule dijkstra_loop_rule [where I = "idle g s"])
  show "idle g s (dijkstra_init g s)" by (simp add: idle_def dijkstra_init_def)
next
  fix st c pq'
  assume a: "idle g s st" "pq_d st \<noteq> []" "dequeue (pq_d st) = (Some c, pq')"
  from dequeue_value [OF a(2,3)] a(1) have c: "c = s" and sub: "snd ` set pq' \<subseteq> {s}"
    by (auto simp: idle_def)
  show "idle g s (st\<lparr>pq_d := pq'\<rparr>)" using a(1) sub by (simp add: idle_def)
  let ?st1 = "st\<lparr>pq_d := pq', visited_d := visited_d st @ [c]\<rparr>"
  have i1: "idle g s ?st1" using a(1) sub by (simp add: idle_def)
  have "get_num (distances_d ?st1) c = NaN"
    using a(1) s by (simp add: idle_def c get_num_init_distances)
  from fold_relax_d_NaN [OF this]
  show "idle g s (fold (relax_d em c) (edges_of (graph_d st) c) ?st1)" using i1 by simp
next
  fix st pq'
  assume a: "idle g s st" "pq_d st \<noteq> []" "dequeue (pq_d st) = (Some d, pq')"
  from dequeue_value [OF a(2,3)] a(1) have "snd ` set pq' \<subseteq> {s}" by (auto simp: idle_def)
  then show "idle g s (st\<lparr>pq_d := pq', visited_d := visited_d st @ [d]\<rparr>)"
    using a(1) by (simp add: idle_def)
qed simp

lemma dijkstra_absent_source:
  assumes s: "s \<notin> fst ` set (nodes g)"
  shows "\<exists>r. dijkstra g s d em = Some r \<and> distance r = Infinity"
proof -
  let ?st = "dijkstra_loop d em (dijkstra_init g s)"
  from dijkstra_loop_idle [OF s, of d em]
  have D: "distances_d ?st = init_distances g s" and P: "previous_d ?st = init_previous g"
    by (simp_all add: idle_def)
  have "reconstruct (previous_d ?st) (Some d) [] = Some [d]"
    unfolding P by (rule reconstruct_unlinked [OF or_null_init_previous])
  moreover have "or_Infinity (map_of (distances_d ?st) d) = Infinity"
    unfolding D using s by (auto simp: map_of_init_distances or_Infinity_def)
  ultimately show ?thesis by (simp add: dijkstra_def dijkstra_call_def Let_def)
qed

lemma dijkstra_absent_destination:
  assumes d: "d \<notin> fst ` set (nodes g)"
  shows "\<exists>r. dijkstra g s d em = Some r \<and> distance r = Infinity"
proof -
  let ?st = "dijkstra_loop d em (dijkstra_init g s)"
  have ok: "ids_ok_d (fst ` set (nodes g)) s ?st"
    by (rule dijkstra_loop_ids_ok [OF dijkstra_init_ids_ok])
  then have "d \<notin> fst ` set (distances_d ?st)" "d \<notin> fst ` set (previous_d ?st)"
    using d by (simp_all add: ids_ok_d_def)
  then have m: "map_of (distances_d ?st) d = None" "map_of (previous_d ?st) d = None"
    by (simp_all add: map_of_eq_None_iff)
  have "reconstruct (previous_d ?st) (Some d) [] = Some [d]"
    by (rule reconstruct_unlinked) (simp add: m or_null_def)
  then show ?thesis
    by (simp add: dijkstra_def dijkstra_call_def Let_def m or_Infinity_def)
qed

lemma aStar_absent:
  "map_of (nodes g) s = None \<or> map_of (nodes g) d = None
   \<Longrightarrow> \<exists>r. aStar g s d em = Some r \<and> distance r = Infinity"
  by (auto simp: aStar_def aStar_call_def split: option.splits)

subsection \<open>Examples\<close>

lemma line_graph_hops:
  assumes "hop line_graph False u v w"
  shows "(u, v, w) \<in> {(''A'', ''B'', 10), (''A'', ''D'', 30), (''B'', ''A'', 10),
                      (''B'', ''D'', 10), (''D'', ''B'', 10), (''D'', ''A'', 30)}"
  using assms
  by (auto simp: hop_def edges_of_def line_graph_def road_def effective_weight_def
           split: if_splits)

lemma line_graph_nonneg: "nonneg line_graph False"
  unfolding nonneg_def using line_graph_hops by fastforce

lemma line_graph_h_val:
  "h_val line_graph (node_at ''D'' 20 0) ''A'' = 20"
  "h_val line_graph (node_at ''D'' 20 0) ''B'' = 10"
  "h_val line_graph (node_at ''D'' 20 0) ''D'' = 0"
  by (simp_all add: h_val_def heuristic_def line_graph_def node_at_def sqrt_400 sqrt_100)

lemma line_graph_consistent: "consistent line_graph (node_at ''D'' 20 0) False"
  unfolding consistent_def
proof (intro allI impI)
  fix u v w
  assume "u \<in> fst ` set (nodes line_graph) \<and> hop line_graph False u v w"
  then have "hop line_graph False u v w" by simp
  from line_graph_hops [OF this]
  show "h_val line_graph (node_at ''D'' 20 0) u \<le> w + h_val line_graph (node_at ''D'' 20 0) v"
    by (auto simp: line_graph_h_val)
qed

text \<open>
  A graph whose heuristic never overestimates the remaining weight but is not consistent:
  \<open>S\<close> and \<open>U\<close> at the origin, \<open>V\<close> at \<open>(9, 0)\<close>, \<open>D\<close> at \<open>(10, 0)\<close>, roads
  \<open>S-U\<close> of weight 1, \<open>S-V\<close> of weight 3, \<open>U-V\<close> of weight 1 and \<open>V-D\<close> of weight 9.
\<close>

definition shortcut_graph :: Graph where
  "shortcut_graph =
     \<lparr>nodes = [(''S'', node_at ''S'' 0 0), (''U'', node_at ''U'' 0 0),
               (''V'', node_at ''V'' 9 0), (''D'', node_at ''D'' 10 0)],
      edges = [(''S'', [road ''S'' ''U'' 1, road ''S'' ''V'' 3]),
               (''U'', [road ''U'' ''V'' 1]),
               (''V'', [road ''V'' ''D'' 9])]\<rparr>"

lemma shortcut_graph_dijkstra:
  "dijkstra shortcut_graph ''S'' ''D'' False
     = Some \<lparr>path = [''S'', ''U'', ''V'', ''D''], distance = Num 11,
             visited = [''S'', ''U'', ''V'', ''D'']\<rparr>"
  by (simp add: shortcut_graph_def queue_eval common_eval dijkstra_eval)

lemma shortcut_graph_aStar:
  "aStar shortcut_graph ''S'' ''D'' False
     = Some \<lparr>path = [''S'', ''U'', ''V'', ''D''], distance = Num 12,
             visited = [''S'', ''V'', ''U'', ''D'']\<rparr>"
  by (simp add: shortcut_graph_def queue_eval common_eval aStar_eval sqrt_100)

section \<open>The sample city graph\<close>

text \<open>
  \<open>generateCityGraph\<close> draws the traffic of every edge with \<open>Math.random()\<close>; the model
  takes the draws as a parameter, \<open>rnd n\<close> being the \<open>n\<close>-th one.
\<close>

definition city_node :: "string \<Rightarrow> real \<Rightarrow> real \<Rightarrow> string \<Rightarrow> node_type \<Rightarrow> Node" where
  "city_node i px py l t = \<lparr>id_node = i, x_node = px, y_node = py, label_node = l, type_node = t\<rparr>"

definition nodeData :: "Node list" where
  "nodeData =
     [city_node ''A'' 100 80 ''Downtown'' Normal,
      city_node ''B'' 250 60 ''Market St'' Normal,
      city_node ''C'' 400 80 ''Tech Park'' Normal,
      city_node ''D'' 550 60 ''Airport Rd'' Normal,
      city_node ''E'' 80 180 ''Hospital'' Hospital,
      city_node ''F'' 220 160 ''City Hall'' Normal,
      city_node ''G'' 380 180 ''University'' Normal,
      city_node ''H'' 540 160 ''Mall'' Normal,
      city_node ''I'' 100 280 ''Fire Station'' Fire_station,
      city_node ''J'' 250 260 ''Stadium'' Normal,
      city_node ''K'' 400 280 ''Police HQ'' Police,
      city_node ''L'' 550 260 ''Industrial'' Normal,
      city_node ''M'' 80 380 ''Suburbs W'' Normal,
      city_node ''N'' 220 360 ''Park'' Normal,
      city_node ''O'' 380 380 ''Station'' Normal,
      city_node ''P'' 540 360 ''Suburbs E'' Normal]"

definition edgeData :: "(string \<times> string \<times> real) list" where
  "edgeData =
     [(''A'', ''B'', 15), (''B'', ''C'', 18), (''C'', ''D'', 20),
      (''E'', ''F'', 14), (''F'', ''G'', 16), (''G'', ''H'', 18),
      (''I'', ''J'', 15), (''J'', ''K'', 17), (''K'', ''L'', 19),
      (''M'', ''N'', 14), (''N'', ''O'', 16), (''O'', ''P'', 18),
      (''A'', ''E'', 12), (''B'', ''F'', 11), (''C'', ''G'', 13), (''D'', ''H'', 12),
      (''E'', ''I'', 11), (''F'', ''J'', 12), (''G'', ''K'', 13), (''H'', ''L'', 11),
      (''I'', ''M'', 12), (''J'', ''N'', 11), (''K'', ''O'', 13), (''L'', ''P'', 12),
      (''A'', ''F'', 18), (''B'', ''G'', 19), (''C'', ''H'', 20),
      (''E'', ''J'', 17), (''F'', ''K'', 18), (''G'', ''L'', 19),
      (''I'', ''N'', 16), (''J'', ''O'', 17), (''K'', ''P'', 18)]"

text \<open>\<open>if (!edges.has(a)) edges.set(a, []); edges.get(a)!.push({...})\<close>.\<close>

definition push_edge ::
  "string \<Rightarrow> string \<Rightarrow> real \<Rightarrow> real \<Rightarrow> (string, Edge list) js_map \<Rightarrow> (string, Edge list) js_map"
where
  "push_edge a b w t m =
     (let m' = (if map_of m a = None then AList.update a [] m else m) in
      case map_of m' a of
        None \<Rightarrow> m'
      | Some es \<Rightarrow>
          AList.update a
            (es @ [\<lparr>from_edge = a, to_edge = b, weight = w, traffic = t, blocked = False\<rparr>]) m')"

fun add_roads ::
  "(nat \<Rightarrow> real) \<Rightarrow> nat \<Rightarrow> (string \<times> string \<times> real) list \<Rightarrow> (string, Edge list) js_map
   \<Rightarrow> (string, Edge list) js_map"
where
  "add_roads rnd n [] m = m"
| "add_roads rnd n ((a, b, w) # rest) m =
     add_roads rnd (n + 2) rest
       (push_edge b a w (rnd (n + 1) * 0.5) (push_edge a b w (rnd n * 0.5) m))"

definition generateCityGraph :: "(nat \<Rightarrow> real) \<Rightarrow> Graph" where
  "generateCityGraph rnd =
     \<lparr>nodes = fold (\<lambda>node m. AList.update (id_node node) node m) nodeData [],
      edges = add_roads rnd 0 edgeData []\<rparr>"

lemmas city_eval = generateCityGraph_def nodeData_def edgeData_def city_node_def push_edge_def

lemma city_dijkstra:
  "dijkstra (generateCityGraph rnd) ''B'' ''E'' True
     = Some \<lparr>path = [''B'', ''F'', ''E''], distance = Num 25,
             visited = [''B'', ''F'', ''A'', ''C'', ''G'', ''J'', ''E'']\<rparr>"
  by (simp add: city_eval queue_eval common_eval dijkstra_eval)

lemma sqrt_90000: "sqrt 90000 = 300"
  by (rule real_sqrt_unique) simp_all

lemma city_sqrt_bounds:
  "101 < sqrt 10400" "sqrt 10400 < 102" "335 < sqrt 112400" "sqrt 112400 < 336"
  "141 < sqrt 20000" "sqrt 20000 < 142"
  by (rule real_less_rsqrt real_less_lsqrt; simp)+

lemma city_aStar:
  "aStar (generateCityGraph rnd) ''B'' ''E'' True
     = Some \<lparr>path = [''B'', ''A'', ''E''], distance = Num 27, visited = [''B'', ''A'', ''E'']\<rparr>"
  using city_sqrt_bounds
  by (simp add: city_eval queue_eval common_eval aStar_eval sqrt_90000)

subsection \<open>A heuristic that never overestimates is not enough\<close>

definition admissible :: "Graph \<Rightarrow> Node \<Rightarrow> string \<Rightarrow> bool \<Rightarrow> bool" where
  "admissible g en d em =
     (\<forall>v a. v \<in> fst ` set (nodes g) \<and> route g em v d a \<longrightarrow> h_val g en v \<le> a)"

lemma shortcut_graph_hops:
  assumes "hop shortcut_graph False u v w"
  shows "(u, v, w) \<in> {(''S'', ''U'', 1), (''S'', ''V'', 3), (''U'', ''V'', 1), (''V'', ''D'', 9)}"
  using assms
  by (auto simp: hop_def edges_of_def shortcut_graph_def road_def effective_weight_def
           split: if_splits)

lemma shortcut_graph_h_val:
  "h_val shortcut_graph (node_at ''D'' 10 0) ''S'' = 10"
  "h_val shortcut_graph (node_at ''D'' 10 0) ''U'' = 10"
  "h_val shortcut_graph (node_at ''D'' 10 0) ''V'' = 1"
  "h_val shortcut_graph (node_at ''D'' 10 0) ''D'' = 0"
  by (simp_all add: h_val_def heuristic_def shortcut_graph_def node_at_def sqrt_100)

lemma shortcut_routes:
  "route shortcut_graph False ''S'' v a \<Longrightarrow>
     (v, a) \<in> {(''S'', 0), (''U'', 1), (''V'', 3), (''V'', 2), (''D'', 12), (''D'', 11)}"
  "route shortcut_graph False ''U'' v a \<Longrightarrow> (v, a) \<in> {(''U'', 0), (''V'', 1), (''D'', 10)}"
  "route shortcut_graph False ''V'' v a \<Longrightarrow> (v, a) \<in> {(''V'', 0), (''D'', 9)}"
  "route shortcut_graph False ''D'' v a \<Longrightarrow> (v, a) \<in> {(''D'', 0)}"
  by (induction rule: route.induct; auto dest!: shortcut_graph_hops)+

lemma shortcut_graph_admissible: "admissible shortcut_graph (node_at ''D'' 10 0) ''D'' False"
  unfolding admissible_def
proof (intro allI impI)
  fix v a
  assume "v \<in> fst ` set (nodes shortcut_graph) \<and> route shortcut_graph False v ''D'' a"
  then have v: "v \<in> {''S'', ''U'', ''V'', ''D''}" and r: "route shortcut_graph False v ''D'' a"
    by (auto simp: shortcut_graph_def)
  from v consider "v = ''S''" | "v = ''U''" | "v = ''V''" | "v = ''D''" by blast
  then show "h_val shortcut_graph (node_at ''D'' 10 0) v \<le> a"
  proof cases
    case 1
    with r shortcut_routes(1) [of "''D''" a] show ?thesis by (auto simp: shortcut_graph_h_val)
  next
    case 2
    with r shortcut_routes(2) [of "''D''" a] show ?thesis by (auto simp: shortcut_graph_h_val)
  next
    case 3
    with r shortcut_routes(3) [of "''D''" a] show ?thesis by (auto simp: shortcut_graph_h_val)
  next
    case 4
    with r shortcut_routes(4) [of "''D''" a] show ?thesis by (auto simp: shortcut_graph_h_val)
  qed
qed

lemma shortcut_route_11: "route shortcut_graph False ''S'' ''D'' 11"
proof -
  have h: "hop shortcut_graph False ''S'' ''U'' 1" "hop shortcut_graph False ''U'' ''V'' 1"
    "hop shortcut_graph False ''V'' ''D'' 9"
    by (simp_all add: hop_def edges_of_def shortcut_graph_def road_def effective_weight_def)
  have "route shortcut_graph False ''S'' ''D'' (0 + 1 + 1 + 9)"
    by (intro route_hop [OF _ h(3)] route_hop [OF _ h(2)] route_hop [OF _ h(1)] route_start)
  then show ?thesis by simp
qed

section \<open>When the two searches agree\<close>

text \<open>
  In the exact arithmetic of the model: when no traversable edge between nodes has a
  negative effective weight and the heuristic towards the destination is consistent, A*
  and Dijkstra's algorithm both return and report equal distances, for every source id
  and destination id.
\<close>

lemma distances_agree:
  assumes nn: "nonneg g em"
    and con: "\<And>en. map_of (nodes g) d = Some en \<Longrightarrow> consistent g en em"
  shows "\<exists>r r'. aStar g s d em = Some r \<and> dijkstra g s d em = Some r' \<and> distance r = distance r'"
proof (cases "map_of (nodes g) s")
  case None
  then have "s \<notin> fst ` set (nodes g)" by (simp add: map_of_eq_None_iff)
  from dijkstra_absent_source [OF this, of d em] aStar_absent [of g s d em] None
  show ?thesis by auto
next
  case s: (Some sn)
  show ?thesis
  proof (cases "map_of (nodes g) d")
    case None
    then have "d \<notin> fst ` set (nodes g)" by (simp add: map_of_eq_None_iff)
    from dijkstra_absent_destination [OF this, of s em] aStar_absent [of g s d em] None
    show ?thesis by auto
  next
    case d: (Some en)
    from aStar_shortest [OF con [OF d] s d] obtain r where
      r: "aStar g s d em = Some r" "shortest g em s d (distance r)" by blast
    from dijkstra_shortest [OF nn s d] obtain r' where
      r': "dijkstra g s d em = Some r'" "shortest g em s d (distance r')" by blast
    from shortest_unique [OF r(2) r'(2)] r(1) r'(1) show ?thesis by simp
  qed
qed

lemma line_graph_distances_agree:
  "nonneg line_graph False \<and> consistent line_graph (node_at ''D'' 20 0) False \<and>
   (\<exists>r r'. aStar line_graph ''A'' ''D'' False = Some r \<and>
            dijkstra line_graph ''A'' ''D'' False = Some r' \<and>
            distance r = distance r' \<and> distance r = Num 20)"
proof -
  have c: "consistent line_graph en False" if "map_of (nodes line_graph) ''D'' = Some en" for en
  proof -
    from that have "en = node_at ''D'' 20 0" by (simp add: line_graph_def)
    then show ?thesis by (simp add: line_graph_consistent)
  qed
  from distances_agree [OF line_graph_nonneg c, of "''D''" "''A''"] obtain r r' where
    "aStar line_graph ''A'' ''D'' False = Some r" "dijkstra line_graph ''A'' ''D'' False = Some r'"
    "distance r = distance r'" by blast
  moreover from this(1) have "distance r = Num 20" by (auto simp: line_graph_aStar)
  ultimately show ?thesis using line_graph_nonneg line_graph_consistent by blast
qed

lemma dijkstra_returns_nonneg:
  assumes "nonneg g em"
  shows "\<exists>r. dijkstra g s d em = Some r"
proof (cases "map_of (nodes g) s")
  case None
  then have "s \<notin> fst ` set (nodes g)" by (simp add: map_of_eq_None_iff)
  from dijkstra_absent_source [OF this, of d em] show ?thesis by blast
next
  case s: (Some sn)
  show ?thesis
  proof (cases "map_of (nodes g) d")
    case None
    then have "d \<notin> fst ` set (nodes g)" by (simp add: map_of_eq_None_iff)
    from dijkstra_absent_destination [OF this, of s em] show ?thesis by blast
  next
    case (Some dn)
    from dijkstra_shortest [OF assms s Some] show ?thesis by blast
  qed
qed

section \<open>A* and the shortest route\<close>

text \<open>
  C2. A* and Dijkstra's algorithm do not always report equal distances. On the shortcut
  graph the heuristic never overestimates (the straight-line distance to \<open>D\<close> is at
  most the weight of every route to \<open>D\<close>), there is a route of weight 11 from \<open>S\<close> to
  \<open>D\<close>, and Dijkstra's algorithm reports 11, but A* reports 12: it visits \<open>V\<close> at score
  3 before \<open>U\<close>, and when \<open>U\<close> later lowers the score of \<open>V\<close> to 2, \<open>V\<close> is already
  visited and is not relaxed again, so \<open>D\<close> keeps \<open>3 + 9\<close>. On the sample city graph,
  whose coordinates are far larger than its weights, an emergency query from \<open>B\<close> to
  \<open>E\<close> gets 27 from A* (by way of \<open>A\<close>) and 25 from Dijkstra's algorithm (by way of
  \<open>F\<close>), whatever the draws of the traffic.
\<close>

theorem aStar_misses_shortest_route:
  "admissible shortcut_graph (node_at ''D'' 10 0) ''D'' False \<and>
   route shortcut_graph False ''S'' ''D'' 11 \<and>
   dijkstra shortcut_graph ''S'' ''D'' False
     = Some \<lparr>path = [''S'', ''U'', ''V'', ''D''], distance = Num 11,
             visited = [''S'', ''U'', ''V'', ''D'']\<rparr> \<and>
   aStar shortcut_graph ''S'' ''D'' False
     = Some \<lparr>path = [''S'', ''U'', ''V'', ''D''], distance = Num 12,
             visited = [''S'', ''V'', ''U'', ''D'']\<rparr> \<and>
   (\<forall>rnd.
      dijkstra (generateCityGraph rnd) ''B'' ''E'' True
        = Some \<lparr>path = [''B'', ''F'', ''E''], distance = Num 25,
                visited = [''B'', ''F'', ''A'', ''C'', ''G'', ''J'', ''E'']\<rparr> \<and>
      aStar (generateCityGraph rnd) ''B'' ''E'' True
        = Some \<lparr>path = [''B'', ''A'', ''E''], distance = Num 27,
                visited = [''B'', ''A'', ''E'']\<rparr>)"
  by (intro conjI allI shortcut_graph_admissible shortcut_route_11 shortcut_graph_dijkstra
        shortcut_graph_aStar city_dijkstra city_aStar)

theorem aStar_misses_shortest_route_witness:
  "''S'' \<in> fst ` set (nodes shortcut_graph) \<and> route shortcut_graph False ''S'' ''D'' 11 \<and>
   h_val shortcut_graph (node_at ''D'' 10 0) ''S'' \<le> 11"
proof -
  have s: "''S'' \<in> fst ` set (nodes shortcut_graph)" by (simp add: shortcut_graph_def)
  from aStar_misses_shortest_route
  have a: "admissible shortcut_graph (node_at ''D'' 10 0) ''D'' False"
    and r: "route shortcut_graph False ''S'' ''D'' 11" by simp_all
  from a [unfolded admissible_def, rule_format, of "''S''" 11] s r
  show ?thesis by simp
qed

end
